theory Spec2Isabelle
  imports Complex_Main "HOL-Library.Multiset" "HOL-Library.Char_ord" "HOL-Library.List_Lexorder"
    "HOL-Library.Product_Lexorder"
begin

section \<open>Partitioned aggregation over a review table\<close>

text \<open>
  The repository runs four variants of one job: a coordinator (rank 0) splits the row
  indices of a CSV table among workers, each worker aggregates its slice into a
  dictionary keyed by an entity id, and the coordinator merges the dictionaries and
  resolves the query.  Python integers are \<open>int\<close>, Python dictionaries are
  association lists in insertion order with unique keys, and pandas cells are
  optional values (\<open>None\<close> is the missing marker \<open>NaN\<close> / \<open>pd.NA\<close>).
\<close>

subsection \<open>Partitioner\<close>

text \<open>
  \<^verbatim>\<open>base = DATASET_SIZE // workers
  ranges = []
  for w in range(workers):
      lo = w * base
      hi = (w + 1) * base if w < workers - 1 else DATASET_SIZE
      ranges.append((lo, hi))\<close>
  (\<^verbatim>\<open>t3q2_master.py\<close>, \<^verbatim>\<open>t3q3_master.py\<close>, \<^verbatim>\<open>t3q4_master.py\<close>, \<^verbatim>\<open>t3_master_only.py\<close>).
  Python's \<^verbatim>\<open>//\<close> is floor division, which is \<open>div\<close> on \<open>int\<close>.  The coordinators
  reach this code only with \<open>workers \<ge> 1\<close> and \<open>DATASET_SIZE > 0\<close>.
\<close>

definition base :: "int \<Rightarrow> int \<Rightarrow> int" where
  "base DATASET_SIZE workers = DATASET_SIZE div workers"

definition ranges :: "int \<Rightarrow> int \<Rightarrow> (int \<times> int) list" where
  "ranges DATASET_SIZE workers =
     map (\<lambda>w. (w * base DATASET_SIZE workers,
               if w < workers - 1 then (w + 1) * base DATASET_SIZE workers else DATASET_SIZE))
         [0..workers - 1]"

text \<open>\<^verbatim>\<open>[hi - lo for (lo, hi) in ranges]\<close>, the chunk sizes of the workers.\<close>

definition range_sizes :: "(int \<times> int) list \<Rightarrow> int list" where
  "range_sizes rs = map (\<lambda>(lo, hi). hi - lo) rs"

text \<open>
  In \<^verbatim>\<open>t3.py\<close> and in \<^verbatim>\<open>MPISolution.run\<close> of \<^verbatim>\<open>t3q2.py\<close> every rank computes its own
  range from its rank, and rank 0 reports
  \<^verbatim>\<open>chunks = [base] * (size - 1) + [total - base * (size - 1)]\<close>
  (\<open>total\<close> and \<open>size\<close> are written \<open>total_rows\<close> and \<open>nranks\<close> here).
\<close>

definition rank_range :: "int \<Rightarrow> int \<Rightarrow> int \<Rightarrow> int \<times> int" where
  "rank_range total_rows nranks rank =
     (rank * base total_rows nranks,
      if rank < nranks - 1 then (rank + 1) * base total_rows nranks else total_rows)"

definition chunks :: "int \<Rightarrow> int \<Rightarrow> int list" where
  "chunks total_rows nranks =
     replicate (nat (nranks - 1)) (base total_rows nranks)
       @ [total_rows - base total_rows nranks * (nranks - 1)]"

subsection \<open>Values: floats, strings, dictionaries\<close>

text \<open>
  A pandas numeric cell is a binary64 value.  \<open>NaN\<close> is the missing marker: the model
  writes a cell as \<open>f64 option\<close> with \<open>None\<close> for \<open>NaN\<close> (what \<^verbatim>\<open>pd.isna\<close> tests), and
  \<open>f64\<close> holds the other values.  Every finite binary64 value is a rational number;
  the program compares such values and converts them to \<^verbatim>\<open>int\<close>, both of which are
  exact, so \<open>Fin\<close> carries the rational.  Operations that round (float addition,
  division, the pandas group sum) are not defined here: they are parameters of the
  functions that use them.
\<close>

datatype f64 = NInf | Fin rat | PInf

type_synonym cell = "f64 option"

instantiation f64 :: linorder
begin

fun less_eq_f64 :: "f64 \<Rightarrow> f64 \<Rightarrow> bool" where
  "less_eq_f64 NInf y = True"
| "less_eq_f64 (Fin x) NInf = False"
| "less_eq_f64 (Fin x) (Fin y) = (x \<le> y)"
| "less_eq_f64 (Fin x) PInf = True"
| "less_eq_f64 PInf PInf = True"
| "less_eq_f64 PInf y = False"

definition less_f64 :: "f64 \<Rightarrow> f64 \<Rightarrow> bool" where
  "less_f64 x y = (x \<le> y \<and> \<not> y \<le> x)"

instance
proof
  fix x y z :: f64
  show "(x < y) = (x \<le> y \<and> \<not> y \<le> x)" by (simp add: less_f64_def)
  show "x \<le> x" by (cases x) simp_all
  show "x \<le> y \<Longrightarrow> y \<le> z \<Longrightarrow> x \<le> z"
    by (cases x; cases y; cases z) simp_all
  show "x \<le> y \<Longrightarrow> y \<le> x \<Longrightarrow> x = y"
    by (cases x; cases y) simp_all
  show "x \<le> y \<or> y \<le> x"
    by (cases x; cases y) auto
qed

end

text \<open>Unary minus on a float, as in the sort key \<^verbatim>\<open>-x[1]\<close>.\<close>

fun f64_neg :: "f64 \<Rightarrow> f64" where
  "f64_neg NInf = PInf"
| "f64_neg (Fin x) = Fin (- x)"
| "f64_neg PInf = NInf"

text \<open>
  \<^verbatim>\<open>int(r)\<close> on a float truncates toward zero and raises \<^verbatim>\<open>OverflowError\<close> on an
  infinity.  An exception is modelled by its message, \<^verbatim>\<open>str(e)\<close>, in the left summand.
\<close>

fun py_int :: "f64 \<Rightarrow> string + int" where
  "py_int (Fin x) = Inr (if 0 \<le> x then \<lfloor>x\<rfloor> else \<lceil>x\<rceil>)"
| "py_int NInf = Inl ''cannot convert float infinity to integer''"
| "py_int PInf = Inl ''cannot convert float infinity to integer''"

text \<open>Python's \<^verbatim>\<open>==\<close> between a float (or \<^verbatim>\<open>None\<close>) and an \<^verbatim>\<open>int\<close> compares the exact values.\<close>

definition eq_int :: "cell \<Rightarrow> int \<Rightarrow> bool" where
  "eq_int x n = (x = Some (Fin (of_int n)))"

text \<open>
  Strings are lists of 8-bit characters, read as code points below 256; their order
  (\<^verbatim>\<open>sorted\<close>, \<^verbatim>\<open><\<close>) is the lexicographic order on code points.  \<^verbatim>\<open>str.strip()\<close> removes
  the characters for which \<^verbatim>\<open>str.isspace()\<close> holds from both ends.
\<close>

definition isspace :: "char \<Rightarrow> bool" where
  "isspace c = (let n = (of_char c :: nat) in (9 \<le> n \<and> n \<le> 13) \<or> (28 \<le> n \<and> n \<le> 32) \<or> n = 133 \<or> n = 160)"

definition strip :: "string \<Rightarrow> string" where
  "strip s = rev (dropWhile isspace (rev (dropWhile isspace s)))"




text \<open>
  A Python \<^verbatim>\<open>dict\<close> is an association list with unique keys, in insertion order.
  \<^verbatim>\<open>d[k] = v\<close> replaces the value in place when \<open>k\<close> is present and appends otherwise;
  \<^verbatim>\<open>d.get(k, default)\<close>, \<^verbatim>\<open>setdefault\<close> and a \<^verbatim>\<open>defaultdict\<close> lookup read the value or the
  default.
\<close>

fun dict_set :: "'k \<Rightarrow> 'v \<Rightarrow> ('k \<times> 'v) list \<Rightarrow> ('k \<times> 'v) list" where
  "dict_set k v [] = [(k, v)]"
| "dict_set k v ((k', v') # d) = (if k' = k then (k', v) # d else (k', v') # dict_set k v d)"

definition dict_get :: "('k \<times> 'v) list \<Rightarrow> 'k \<Rightarrow> 'v \<Rightarrow> 'v" where
  "dict_get d k dflt = (case map_of d k of None \<Rightarrow> dflt | Some v \<Rightarrow> v)"

text \<open>\<^verbatim>\<open>counter[s] += n\<close> on a \<^verbatim>\<open>Counter\<close>, and \<^verbatim>\<open>Counter.update(other)\<close> with a mapping.\<close>

definition counter_add :: "string \<Rightarrow> int \<Rightarrow> (string \<times> int) list \<Rightarrow> (string \<times> int) list" where
  "counter_add s n c = dict_set s (dict_get c s 0 + n) c"

definition counter_update :: "(string \<times> int) list \<Rightarrow> (string \<times> int) list \<Rightarrow> (string \<times> int) list" where
  "counter_update c other = fold (\<lambda>(s, n) c'. counter_add s n c') other c"

text \<open>The well-formedness of a dictionary: no key occurs twice.\<close>

definition wf_dict :: "('k \<times> 'v) list \<Rightarrow> bool" where
  "wf_dict d = distinct (map fst d)"

subsection \<open>Row source\<close>

text \<open>
  \<^verbatim>\<open>pd.read_csv(path, skiprows=range(1, lo + 1), nrows=..., header=0, dtype=...)\<close> yields a
  frame: the column names of the header and the rows of the slice.  The identifier,
  name and title columns are read with dtype \<^verbatim>\<open>"string"\<close> (a missing field is \<^verbatim>\<open>pd.NA\<close>,
  here \<open>None\<close>); \<^verbatim>\<open>RScore\<close> and \<^verbatim>\<open>BPrice\<close> are the cells after
  \<^verbatim>\<open>pd.to_numeric(..., errors="coerce")\<close>, which turns a missing or non-numeric field
  into \<^verbatim>\<open>NaN\<close>.  Reading is outside the repository: a reader is a function from
  \<open>lo\<close> and \<open>nrows\<close> to a frame or to the message of the exception pandas raised.
\<close>

record row =
  UId :: "string option"
  UName :: "string option"
  BId :: "string option"
  BTitle :: "string option"
  BPrice :: cell
  RScore :: cell

record frame =
  columns :: "string list"
  rows :: "row list"

type_synonym reader = "int \<Rightarrow> int \<Rightarrow> string + frame"

text \<open>
  \<^verbatim>\<open>for col in (...): if col not in df.columns: raise Exception(f"Column '{col}' not found in dataset.")\<close>
\<close>

fun check_columns :: "string list \<Rightarrow> frame \<Rightarrow> string option" where
  "check_columns [] df = None"
| "check_columns (col # cols) df =
     (if col \<notin> set (columns df)
      then Some (''Column '' @ [CHR 0x27] @ col @ [CHR 0x27] @ '' not found in dataset.'')
      else check_columns cols df)"

subsection \<open>Local aggregator of Q3 (\<^verbatim>\<open>t3q3.py\<close>, \<^verbatim>\<open>MPISolution._work\<close>)\<close>

text \<open>
  One entry of \<^verbatim>\<open>local\<close>: \<^verbatim>\<open>{"sum": 0, "cnt": 0, "books": set(), "name_counts": Counter()}\<close>.
  The payload sent to the coordinator holds the same entries with the set as a list and
  the counter as a dict.
\<close>

record user_info =
  u_sum :: int
  u_cnt :: int
  u_books :: "string set"
  u_name_counts :: "(string \<times> int) list"

definition user_default :: user_info where
  "user_default = \<lparr>u_sum = 0, u_cnt = 0, u_books = {}, u_name_counts = []\<rparr>"

type_synonym user_map = "(string \<times> user_info) list"

text \<open>
  The body of \<^verbatim>\<open>for _, row in df.iterrows()\<close>: a row with a missing rating, user id or
  book id is skipped by \<^verbatim>\<open>continue\<close>; otherwise the entry of the user is updated.
\<close>

definition q3_step :: "row \<Rightarrow> user_map \<Rightarrow> string + user_map" where
  "q3_step r loc =
     (case RScore r of
        None \<Rightarrow> Inr loc
      | Some score \<Rightarrow>
          (case UId r of
             None \<Rightarrow> Inr loc
           | Some uid \<Rightarrow>
               (case BId r of
                  None \<Rightarrow> Inr loc
                | Some bid \<Rightarrow>
                    (case py_int score of
                       Inl e \<Rightarrow> Inl e
                     | Inr n \<Rightarrow>
                         let u = dict_get loc uid user_default;
                             u1 = u\<lparr>u_sum := u_sum u + n, u_cnt := u_cnt u + 1,
                                    u_books := insert bid (u_books u)\<rparr>;
                             u2 = (case UName r of
                                     None \<Rightarrow> u1
                                   | Some name \<Rightarrow>
                                       let s = strip name
                                       in if s \<noteq> []
                                          then u1\<lparr>u_name_counts := counter_add s 1 (u_name_counts u1)\<rparr>
                                          else u1)
                         in Inr (dict_set uid u2 loc)))))"

fun q3_loop :: "row list \<Rightarrow> user_map \<Rightarrow> string + user_map" where
  "q3_loop [] loc = Inr loc"
| "q3_loop (r # rs) loc =
     (case q3_step r loc of Inl e \<Rightarrow> Inl e | Inr loc' \<Rightarrow> q3_loop rs loc')"

definition q3_work :: "reader \<Rightarrow> int \<Rightarrow> int \<Rightarrow> string + (user_map \<times> int)" where
  "q3_work read lo hi =
     (case read lo (max 0 (hi - lo)) of
        Inl e \<Rightarrow> Inl e
      | Inr df \<Rightarrow>
          (case check_columns [''UId'', ''UName'', ''BId'', ''RScore''] df of
             Some e \<Rightarrow> Inl e
           | None \<Rightarrow>
               (case q3_loop (rows df) [] of
                  Inl e \<Rightarrow> Inl e
                | Inr loc \<Rightarrow> Inr (loc, int (length loc)))))"

subsection \<open>Local aggregator of Q4 (\<^verbatim>\<open>t3q4.py\<close>, \<^verbatim>\<open>MPISolution._work\<close>)\<close>

text \<open>\<^verbatim>\<open>{"sum": 0, "cnt": 0, "price": None, "title_counts": Counter()}\<close>\<close>

record book_info =
  b_sum :: int
  b_cnt :: int
  b_price :: "f64 option"
  b_title_counts :: "(string \<times> int) list"

definition book_default :: book_info where
  "book_default = \<lparr>b_sum = 0, b_cnt = 0, b_price = None, b_title_counts = []\<rparr>"

type_synonym book_map = "(string \<times> book_info) list"

definition q4_step :: "row \<Rightarrow> book_map \<Rightarrow> string + book_map" where
  "q4_step r loc =
     (case RScore r of
        None \<Rightarrow> Inr loc
      | Some score \<Rightarrow>
          (case BId r of
             None \<Rightarrow> Inr loc
           | Some bid \<Rightarrow>
               (case py_int score of
                  Inl e \<Rightarrow> Inl e
                | Inr n \<Rightarrow>
                    let entry = dict_get loc bid book_default;
                        e1 = entry\<lparr>b_sum := b_sum entry + n, b_cnt := b_cnt entry + 1\<rparr>;
                        e2 = (if b_price e1 = None \<and> BPrice r \<noteq> None
                              then e1\<lparr>b_price := BPrice r\<rparr> else e1);
                        e3 = (case BTitle r of
                                None \<Rightarrow> e2
                              | Some title \<Rightarrow>
                                  let s = strip title
                                  in if s \<noteq> []
                                     then e2\<lparr>b_title_counts := counter_add s 1 (b_title_counts e2)\<rparr>
                                     else e2)
                    in Inr (dict_set bid e3 loc))))"

fun q4_loop :: "row list \<Rightarrow> book_map \<Rightarrow> string + book_map" where
  "q4_loop [] loc = Inr loc"
| "q4_loop (r # rs) loc =
     (case q4_step r loc of Inl e \<Rightarrow> Inl e | Inr loc' \<Rightarrow> q4_loop rs loc')"

definition q4_work :: "reader \<Rightarrow> int \<Rightarrow> int \<Rightarrow> string + (book_map \<times> int)" where
  "q4_work read lo hi =
     (case read lo (max 0 (hi - lo)) of
        Inl e \<Rightarrow> Inl e
      | Inr df \<Rightarrow>
          (case check_columns [''BId'', ''BTitle'', ''BPrice'', ''RScore''] df of
             Some e \<Rightarrow> Inl e
           | None \<Rightarrow>
               (case q4_loop (rows df) [] of
                  Inl e \<Rightarrow> Inl e
                | Inr loc \<Rightarrow> Inr (loc, int (length loc)))))"

subsection \<open>Local aggregator of Q2 (\<^verbatim>\<open>t3q2.py\<close> and \<^verbatim>\<open>t3.py\<close>, \<^verbatim>\<open>MPISolution._process_slice\<close>)\<close>

text \<open>
  Q2 aggregates with pandas and keeps float sums.  The operations that round are
  parameters: \<open>gsum\<close> is \<^verbatim>\<open>groupby(...)["RScore"].sum()\<close> on the non-missing ratings of a
  group followed by \<^verbatim>\<open>float(... or 0.0)\<close>, \<open>fadd\<close> is float addition (\<^verbatim>\<open>+=\<close>) and \<open>fdiv\<close>
  is the division of a float by a count.  A result \<open>None\<close> is \<^verbatim>\<open>NaN\<close>.
\<close>

record float_ops =
  gsum :: "f64 list \<Rightarrow> cell"
  fadd :: "cell \<Rightarrow> cell \<Rightarrow> cell"
  fdiv :: "cell \<Rightarrow> int \<Rightarrow> cell"

text \<open>A part map entry: \<^verbatim>\<open>(sum_scores: float, cnt_scores: int, price_or_None: float|None)\<close>.\<close>

type_synonym q2_entry = "cell \<times> int \<times> f64 option"
type_synonym q2_map = "(string \<times> q2_entry) list"

text \<open>
  \<^verbatim>\<open>df.groupby("BId", as_index=False)\<close> has one group for each book id that is not
  missing, in sorted order.
\<close>

definition q2_keys :: "row list \<Rightarrow> string list" where
  "q2_keys rs = sort (remdups (List.map_filter BId rs))"

definition q2_scores :: "row list \<Rightarrow> string \<Rightarrow> f64 list" where
  "q2_scores rs bid = List.map_filter RScore (filter (\<lambda>r. BId r = Some bid) rs)"

definition sum_per_book :: "float_ops \<Rightarrow> row list \<Rightarrow> string \<Rightarrow> cell" where
  "sum_per_book ops rs bid = gsum ops (q2_scores rs bid)"

definition cnt_per_book :: "row list \<Rightarrow> string \<Rightarrow> int" where
  "cnt_per_book rs bid = int (length (q2_scores rs bid))"

text \<open>
  \<^verbatim>\<open>price_any = df[["BId", "BPrice"]].dropna(subset=["BPrice"]).drop_duplicates(subset=["BId"], keep="last")\<close>,
  left-joined on \<^verbatim>\<open>BId\<close>: the price of the last row of the slice with that book id whose
  price is not missing, or \<^verbatim>\<open>NaN\<close> (which the part map stores as \<^verbatim>\<open>None\<close>).
\<close>

definition price_any :: "row list \<Rightarrow> string \<Rightarrow> f64 option" where
  "price_any rs bid =
     (case List.map_filter BPrice (filter (\<lambda>r. BId r = Some bid) rs) of
        [] \<Rightarrow> None
      | p # ps \<Rightarrow> Some (last (p # ps)))"

definition q2_part_map :: "float_ops \<Rightarrow> row list \<Rightarrow> q2_map" where
  "q2_part_map ops rs =
     map (\<lambda>bid. (bid, (sum_per_book ops rs bid, cnt_per_book rs bid, price_any rs bid))) (q2_keys rs)"



subsection \<open>Coordination: messages, gather, job result\<close>











subsection \<open>Coordinator of Q2 (\<^verbatim>\<open>t3q2_master.py\<close>)\<close>

text \<open>
  \<^verbatim>\<open>for bid, (s, c, p) in m.items():
      g = global_map.setdefault(bid, [0.0, 0, None])
      g[0] += float(s)
      g[1] += int(c)
      if g[2] is None and p is not None:
          g[2] = float(p)\<close>
\<close>

definition q2_combine :: "float_ops \<Rightarrow> q2_entry \<Rightarrow> q2_entry \<Rightarrow> q2_entry" where
  "q2_combine ops g e =
     (case g of (gs, gc, gp) \<Rightarrow>
        (case e of (s, c, p) \<Rightarrow>
           (fadd ops gs s, gc + c, if gp = None \<and> p \<noteq> None then p else gp)))"

definition q2_merge_item :: "float_ops \<Rightarrow> string \<times> q2_entry \<Rightarrow> q2_map \<Rightarrow> q2_map" where
  "q2_merge_item ops item global_map =
     (case item of (bid, e) \<Rightarrow>
        dict_set bid (q2_combine ops (dict_get global_map bid (Some (Fin 0), 0, None)) e)
          global_map)"

definition q2_merge :: "float_ops \<Rightarrow> q2_map list \<Rightarrow> q2_map" where
  "q2_merge ops worker_maps = fold (\<lambda>m g. fold (q2_merge_item ops) m g) worker_maps []"





text \<open>
  The final loop of \<^verbatim>\<open>t3.py\<close> and \<^verbatim>\<open>t3_master_only.py\<close> instead divides:
  \<^verbatim>\<open>if c <= 0: continue
  avg = s / c
  if avg == 5 and price == 2: final += 1\<close>
\<close>

definition t3_eligible :: "float_ops \<Rightarrow> q2_entry \<Rightarrow> bool" where
  "t3_eligible ops e =
     (case e of (s, c, price) \<Rightarrow> \<not> c \<le> 0 \<and> eq_int (fdiv ops s c) 5 \<and> eq_int price 2)"

subsection \<open>Coordinator of Q3 (\<^verbatim>\<open>t3q3_master.py\<close>)\<close>

text \<open>
  \<^verbatim>\<open>def pick_display_name(uid, counts):
      if not counts: return str(uid)
      c = Counter(counts)
      top = max(c.values())
      candidates = sorted([n for n, v in c.items() if v == top])
      return candidates[0]\<close>
\<close>

definition top_candidates :: "(string \<times> int) list \<Rightarrow> string list" where
  "top_candidates counts =
     (let top_count = Max (set (map snd counts))
      in sort (map fst (filter (\<lambda>(n, v). v = top_count) counts)))"

definition pick_display_name :: "string \<Rightarrow> (string \<times> int) list \<Rightarrow> string" where
  "pick_display_name uid counts = (if counts = [] then uid else hd (top_candidates counts))"

text \<open>
  \<^verbatim>\<open>u = users[uid]
  u["sum"] += int(info["sum"])
  u["cnt"] += int(info["cnt"])
  u["books"].update(info.get("books", []))
  u["name_counts"].update(info.get("name_counts", {}))\<close>
\<close>

definition q3_combine :: "user_info \<Rightarrow> user_info \<Rightarrow> user_info" where
  "q3_combine u info =
     \<lparr>u_sum = u_sum u + u_sum info, u_cnt = u_cnt u + u_cnt info,
      u_books = u_books u \<union> u_books info,
      u_name_counts = counter_update (u_name_counts u) (u_name_counts info)\<rparr>"

definition q3_merge_item :: "string \<times> user_info \<Rightarrow> user_map \<Rightarrow> user_map" where
  "q3_merge_item item users =
     (case item of (uid, info) \<Rightarrow>
        dict_set uid (q3_combine (dict_get users uid user_default) info) users)"

definition q3_merge :: "user_map list \<Rightarrow> user_map" where
  "q3_merge worker_partials = fold (\<lambda>m users. fold q3_merge_item m users) worker_partials []"





subsection \<open>Coordinator of Q4 (\<^verbatim>\<open>t3q4_master.py\<close>)\<close>

text \<open>
  \<^verbatim>\<open>def pick_title(tc):
      if not tc: return ""
      c = Counter(tc)
      top = max(c.values())
      cands = sorted([t for t, v in c.items() if v == top])
      return cands[0]\<close>
\<close>

definition pick_title :: "(string \<times> int) list \<Rightarrow> string" where
  "pick_title tc = (if tc = [] then [] else hd (top_candidates tc))"

text \<open>
  \<^verbatim>\<open>b = books[bid]
  b["sum"] += int(info["sum"])
  b["cnt"] += int(info["cnt"])
  if b["price"] is None and info["price"] is not None:
      b["price"] = float(info["price"])
  b["title_counts"].update(info.get("title_counts", {}))\<close>
\<close>

definition q4_combine :: "book_info \<Rightarrow> book_info \<Rightarrow> book_info" where
  "q4_combine b info =
     \<lparr>b_sum = b_sum b + b_sum info, b_cnt = b_cnt b + b_cnt info,
      b_price = (if b_price b = None \<and> b_price info \<noteq> None then b_price info else b_price b),
      b_title_counts = counter_update (b_title_counts b) (b_title_counts info)\<rparr>"

definition q4_merge_item :: "string \<times> book_info \<Rightarrow> book_map \<Rightarrow> book_map" where
  "q4_merge_item item books =
     (case item of (bid, info) \<Rightarrow>
        dict_set bid (q4_combine (dict_get books bid book_default) info) books)"

definition q4_merge :: "book_map list \<Rightarrow> book_map" where
  "q4_merge worker_partials = fold (\<lambda>pm books. fold q4_merge_item pm books) worker_partials []"

text \<open>
  \<^verbatim>\<open>candidates = []
  for bid, info in books.items():
      c = info["cnt"]
      if c <= 0: continue
      if info["sum"] < 4 * c and info["price"] is not None:
          title = pick_title(info["title_counts"])
          price = float(info["price"])
          candidates.append((title, price))\<close>
\<close>

fun q4_candidates :: "book_map \<Rightarrow> (string \<times> f64) list" where
  "q4_candidates [] = []"
| "q4_candidates ((bid, info) # books) =
     (if b_cnt info \<le> 0 then q4_candidates books
      else
        (case b_price info of
           None \<Rightarrow> q4_candidates books
         | Some price \<Rightarrow>
             if b_sum info < 4 * b_cnt info
             then (pick_title (b_title_counts info), price) # q4_candidates books
             else q4_candidates books))"

text \<open>
  \<^verbatim>\<open>candidates.sort(key=lambda x: (-x[1], x[0]))
  top10 = candidates[:10]
  final = {title: price for title, price in top10}\<close>
  Python's sort is stable, as \<open>sort_key\<close> is; tuples compare lexicographically.
\<close>

definition q4_sorted :: "(string \<times> f64) list \<Rightarrow> (string \<times> f64) list" where
  "q4_sorted candidates = sort_key (\<lambda>x. (f64_neg (snd x), fst x)) candidates"

definition top10 :: "(string \<times> f64) list \<Rightarrow> (string \<times> f64) list" where
  "top10 candidates = take 10 (q4_sorted candidates)"

definition dict_of_pairs :: "('k \<times> 'v) list \<Rightarrow> ('k \<times> 'v) list" where
  "dict_of_pairs ps = fold (\<lambda>(k, v) d. dict_set k v d) ps []"

definition q4_final :: "book_map \<Rightarrow> (string \<times> f64) list" where
  "q4_final books = dict_of_pairs (top10 (q4_candidates books))"


subsection \<open>Notions of the specification\<close>

text \<open>
  The rows the specification calls skipped: the rating is missing (or was not numeric)
  or the primary entity id, given by \<open>key\<close>, is missing.  \<open>without_rows\<close> is a reader that
  yields the frames of \<open>read\<close> with the rows satisfying \<open>P\<close> removed.
\<close>

definition skipped_row :: "(row \<Rightarrow> string option) \<Rightarrow> row \<Rightarrow> bool" where
  "skipped_row key r = (RScore r = None \<or> key r = None)"

definition without_rows :: "(row \<Rightarrow> bool) \<Rightarrow> reader \<Rightarrow> reader" where
  "without_rows P read lo n =
     (case read lo n of
        Inl e \<Rightarrow> Inl e
      | Inr df \<Rightarrow> Inr (df\<lparr>rows := filter (\<lambda>r. \<not> P r) (rows df)\<rparr>))"

text \<open>
  The price the specification expects a local aggregator to capture for an entity: that
  of the first row of the slice which is counted for the entity and whose price is not
  missing.  \<open>last_price\<close> is the price of the last row of the slice with that book id
  whose price is not missing.
\<close>

definition first_price :: "row list \<Rightarrow> string \<Rightarrow> f64 option" where
  "first_price rs bid =
     (case find (\<lambda>r. RScore r \<noteq> None \<and> BId r = Some bid \<and> BPrice r \<noteq> None) rs of
        None \<Rightarrow> None
      | Some r \<Rightarrow> BPrice r)"

definition last_price :: "row list \<Rightarrow> string \<Rightarrow> f64 option" where
  "last_price rs bid =
     (case find (\<lambda>r. BId r = Some bid \<and> BPrice r \<noteq> None) (rev rs) of
        None \<Rightarrow> None
      | Some r \<Rightarrow> BPrice r)"

text \<open>
  The price of the first entry for \<open>bid\<close>, in the order in which the merge visits the
  entries of the partial maps, that carries a price.
\<close>

definition first_writer :: "('e \<Rightarrow> f64 option) \<Rightarrow> (string \<times> 'e) list list \<Rightarrow> string \<Rightarrow> f64 option" where
  "first_writer price partials bid =
     (case find (\<lambda>(k, e). k = bid \<and> price e \<noteq> None) (concat partials) of
        None \<Rightarrow> None
      | Some (k, e) \<Rightarrow> price e)"

text \<open>
  The eligibility of a merged book for the top-10 query in the words of the
  specification, the ranking "price descending, title ascending", and the titles of a
  list of pairs with every repetition after the first removed.
\<close>

definition eligible_q4 :: "book_info \<Rightarrow> bool" where
  "eligible_q4 b = (0 < b_cnt b \<and> b_sum b < 4 * b_cnt b \<and> b_price b \<noteq> None)"

definition ranked_before :: "string \<times> f64 \<Rightarrow> string \<times> f64 \<Rightarrow> bool" where
  "ranked_before x y = (snd y < snd x \<or> (snd x = snd y \<and> fst x \<le> fst y))"

fun uniq :: "'a list \<Rightarrow> 'a list" where
  "uniq [] = []"
| "uniq (x # xs) = x # filter (\<lambda>y. y \<noteq> x) (uniq xs)"


text \<open>
  The merged map in the words of the specification.  \<open>entries_of k items\<close> are the entries
  that the partial maps hold for the entity id \<open>k\<close>, in the order in which the merge
  visits them.  \<open>csum c n\<close> is the count of label \<open>n\<close> in the frequency table \<open>c\<close>, and
  \<open>label_totals\<close> sums frequency tables key-wise.  A merged entry is compared by its
  view: sum, count, set of distinct ids (or price) and the frequency table as a map,
  which is what equality of Python dictionaries compares.
\<close>

definition entries_of :: "string \<Rightarrow> (string \<times> 'e) list \<Rightarrow> 'e list" where
  "entries_of k items = map snd (filter (\<lambda>(k', e). k' = k) items)"

definition csum :: "(string \<times> int) list \<Rightarrow> string \<Rightarrow> int" where
  "csum c n = sum_list (map snd (filter (\<lambda>(s, v). s = n) c))"

definition label_totals :: "(string \<times> int) list list \<Rightarrow> string \<rightharpoonup> int" where
  "label_totals cs n =
     (if n \<in> \<Union> (set (map (\<lambda>c. fst ` set c) cs))
      then Some (sum_list (map (\<lambda>c. csum c n) cs)) else None)"

type_synonym user_view = "int \<times> int \<times> string set \<times> (string \<rightharpoonup> int)"

definition view_user :: "user_info \<Rightarrow> user_view" where
  "view_user u = (u_sum u, u_cnt u, u_books u, map_of (u_name_counts u))"

definition view_q3 :: "user_map \<Rightarrow> string \<rightharpoonup> user_view" where
  "view_q3 users k = map_option view_user (map_of users k)"

definition spec_merge_q3 :: "user_map list \<Rightarrow> string \<rightharpoonup> user_view" where
  "spec_merge_q3 ps k =
     (let es = entries_of k (concat ps)
      in if es = [] then None
         else Some (sum_list (map u_sum es), sum_list (map u_cnt es),
                    \<Union> (set (map u_books es)), label_totals (map u_name_counts es)))"

type_synonym book_view = "int \<times> int \<times> f64 option \<times> (string \<rightharpoonup> int)"

definition view_book :: "book_info \<Rightarrow> book_view" where
  "view_book b = (b_sum b, b_cnt b, b_price b, map_of (b_title_counts b))"

definition view_q4 :: "book_map \<Rightarrow> string \<rightharpoonup> book_view" where
  "view_q4 books k = map_option view_book (map_of books k)"

definition spec_merge_q4 :: "book_map list \<Rightarrow> string \<rightharpoonup> book_view" where
  "spec_merge_q4 ps k =
     (let es = entries_of k (concat ps)
      in if es = [] then None
         else Some (sum_list (map b_sum es), sum_list (map b_cnt es),
                    first_writer b_price ps k, label_totals (map b_title_counts es)))"

text \<open>The prices that the partial maps carry for an entity id.\<close>

definition prices_of :: "('e \<Rightarrow> f64 option) \<Rightarrow> (string \<times> 'e) list list \<Rightarrow> string \<Rightarrow> f64 set" where
  "prices_of price ps k = {p. Some p \<in> set (map price (entries_of k (concat ps)))}"

text \<open>The partial maps agree on the price of every entity id.\<close>

definition consistent_prices :: "('e \<Rightarrow> f64 option) \<Rightarrow> (string \<times> 'e) list list \<Rightarrow> bool" where
  "consistent_prices price ps =
     (\<forall>k. \<forall>p \<in> prices_of price ps k. \<forall>q \<in> prices_of price ps k. p = q)"

text \<open>A merged book without its price: sum, count and title frequencies.\<close>

definition unpriced :: "book_view \<Rightarrow> int \<times> int \<times> (string \<rightharpoonup> int)" where
  "unpriced v = (case v of (s, c, p, t) \<Rightarrow> (s, c, t))"

text \<open>
  The Python value of a sum field.  In Q3 and Q4 it is an \<^verbatim>\<open>int\<close>: the local aggregator
  starts from \<^verbatim>\<open>0\<close> and adds \<^verbatim>\<open>int(r)\<close>, the merge starts from \<^verbatim>\<open>0\<close> and adds
  \<^verbatim>\<open>int(info["sum"])\<close>.  In Q2 it is a \<^verbatim>\<open>float\<close>: the part map stores
  \<^verbatim>\<open>float(row.get("rsum", 0.0) or 0.0)\<close> and the merge starts from \<^verbatim>\<open>0.0\<close> and adds
  \<^verbatim>\<open>float(s)\<close>.
\<close>

datatype pynum = PyInt int | PyFloat cell

fun is_exact_int :: "pynum \<Rightarrow> bool" where
  "is_exact_int (PyInt n) = True"
| "is_exact_int (PyFloat x) = False"

definition q2_sumScore :: "q2_entry \<Rightarrow> pynum" where
  "q2_sumScore e = PyFloat (fst e)"

definition q3_sumScore :: "user_info \<Rightarrow> pynum" where
  "q3_sumScore u = PyInt (u_sum u)"

definition q4_sumScore :: "book_info \<Rightarrow> pynum" where
  "q4_sumScore b = PyInt (b_sum b)"

text \<open>
  The ratings of the rows of a slice that satisfy \<open>P\<close> and have a rating, and the integer
  that \<^verbatim>\<open>int(r)\<close> yields for a finite rating.
\<close>

definition scores_of :: "(row \<Rightarrow> bool) \<Rightarrow> row list \<Rightarrow> f64 list" where
  "scores_of P rs = List.map_filter RScore (filter P rs)"

definition trunc :: "f64 \<Rightarrow> int" where
  "trunc x = (case py_int x of Inl e \<Rightarrow> 0 | Inr n \<Rightarrow> n)"

subsection \<open>Example inputs\<close>

text \<open>
  A slice of four rows: a counted row of user \<^verbatim>\<open>U1\<close> and book \<^verbatim>\<open>B1\<close>, a row without
  rating, a row without user id and a row without book id.
\<close>

definition skip_rows :: "row list" where
  "skip_rows =
     [\<lparr>UId = Some ''U1'', UName = Some ''Ann'', BId = Some ''B1'', BTitle = Some ''T'',
       BPrice = Some (Fin 7), RScore = Some (Fin 3)\<rparr>,
      \<lparr>UId = Some ''U1'', UName = Some ''Ann'', BId = Some ''B1'', BTitle = Some ''T'',
       BPrice = Some (Fin 7), RScore = None\<rparr>,
      \<lparr>UId = None, UName = Some ''Bea'', BId = Some ''B2'', BTitle = Some ''S'',
       BPrice = Some (Fin 8), RScore = Some (Fin 5)\<rparr>,
      \<lparr>UId = Some ''U2'', UName = Some ''Cy'', BId = None, BTitle = Some ''R'',
       BPrice = Some (Fin 9), RScore = Some (Fin 4)\<rparr>]"

definition skip_reader :: reader where
  "skip_reader lo n =
     Inr \<lparr>columns = [''UId'', ''UName'', ''BId'', ''BTitle'', ''BPrice'', ''RScore''],
          rows = skip_rows\<rparr>"

text \<open>A row of book \<^verbatim>\<open>B1\<close> with a price and no rating.\<close>

definition unrated_row :: row where
  "unrated_row = \<lparr>UId = None, UName = None, BId = Some ''B1'', BTitle = None,
     BPrice = Some (Fin 2), RScore = None\<rparr>"

text \<open>Two counted rows of book \<^verbatim>\<open>B1\<close> with the prices 10 and 20, and a third book row.\<close>

definition price_rows :: "row list" where
  "price_rows =
     [\<lparr>UId = Some ''U1'', UName = None, BId = Some ''B1'', BTitle = Some ''T'',
       BPrice = Some (Fin 10), RScore = Some (Fin 5)\<rparr>,
      \<lparr>UId = Some ''U2'', UName = None, BId = Some ''B1'', BTitle = Some ''T'',
       BPrice = Some (Fin 20), RScore = Some (Fin 5)\<rparr>]"

text \<open>Two partial maps of Q4 that disagree on the price of \<^verbatim>\<open>B1\<close>.\<close>

definition part_a :: book_map where
  "part_a = [(''B1'', \<lparr>b_sum = 3, b_cnt = 1, b_price = Some (Fin 10), b_title_counts = [(''T'', 1)]\<rparr>)]"

definition part_b :: book_map where
  "part_b = [(''B1'', \<lparr>b_sum = 2, b_cnt = 1, b_price = Some (Fin 20), b_title_counts = [(''T'', 1)]\<rparr>)]"

text \<open>Two part maps of Q2 that disagree on the price of \<^verbatim>\<open>B1\<close>.\<close>

definition q2_part_a :: q2_map where
  "q2_part_a = [(''B1'', (Some (Fin 5), 1, Some (Fin 10)))]"

definition q2_part_b :: q2_map where
  "q2_part_b = [(''B1'', (Some (Fin 5), 1, Some (Fin 20)))]"

text \<open>
  Merged books for the top-10 query, each with one rating of 3 (so eligible when the
  price is known): \<open>mk_books\<close> builds them from \<open>(book id, title, price)\<close>.  \<open>twelve_books\<close>
  has distinct titles; in \<open>ten_books\<close> the books \<^verbatim>\<open>B0\<close> and \<^verbatim>\<open>B2\<close> share the title \<^verbatim>\<open>A\<close>.
\<close>

definition mk_books :: "(string \<times> string \<times> rat) list \<Rightarrow> book_map" where
  "mk_books xs =
     map (\<lambda>(bid, title, price).
            (bid, \<lparr>b_sum = 3, b_cnt = 1, b_price = Some (Fin price), b_title_counts = [(title, 1)]\<rparr>))
       xs"

definition twelve_books :: book_map where
  "twelve_books = mk_books
     [(''B0'', ''K'', 30), (''B1'', ''J'', 50), (''B2'', ''I'', 50), (''B3'', ''H'', 20),
      (''B4'', ''G'', 120), (''B5'', ''F'', 110), (''B6'', ''E'', 10), (''B7'', ''D'', 90),
      (''B8'', ''C'', 80), (''B9'', ''B'', 70), (''B10'', ''A'', 60), (''B11'', ''L'', 100)]"

definition ten_books :: book_map where
  "ten_books = mk_books
     [(''B0'', ''A'', 100), (''B1'', ''B'', 90), (''B2'', ''A'', 80), (''B3'', ''C'', 70),
      (''B4'', ''D'', 60), (''B5'', ''E'', 50), (''B6'', ''F'', 40), (''B7'', ''G'', 30),
      (''B8'', ''H'', 20), (''B9'', ''I'', 10)]"

text \<open>A merged book with an average of exactly 4, which is not below 4.\<close>

definition average_four :: book_map where
  "average_four = mk_books [] @
     [(''B0'', \<lparr>b_sum = 8, b_cnt = 2, b_price = Some (Fin 5), b_title_counts = [(''A'', 2)]\<rparr>)]"


text \<open>Three partial maps of Q3, and a partial map of Q4 that agrees with \<open>part_a\<close>.\<close>

definition users_a :: user_map where
  "users_a = [(''U1'', \<lparr>u_sum = 4, u_cnt = 1, u_books = {''b1''}, u_name_counts = [(''Ann'', 1)]\<rparr>)]"

definition users_b :: user_map where
  "users_b =
     [(''U2'', \<lparr>u_sum = 8, u_cnt = 2, u_books = {''b4'', ''b5''}, u_name_counts = [(''Bob'', 2)]\<rparr>),
      (''U1'', \<lparr>u_sum = 3, u_cnt = 1, u_books = {''b2''}, u_name_counts = [(''Anne'', 1)]\<rparr>)]"

definition users_c :: user_map where
  "users_c = [(''U1'', \<lparr>u_sum = 5, u_cnt = 1, u_books = {''b1''}, u_name_counts = [(''Ann'', 1)]\<rparr>)]"

definition part_c :: book_map where
  "part_c =
     [(''B2'', \<lparr>b_sum = 1, b_cnt = 1, b_price = Some (Fin 7), b_title_counts = [(''S'', 1)]\<rparr>),
      (''B1'', \<lparr>b_sum = 4, b_cnt = 1, b_price = None, b_title_counts = [(''T'', 1)]\<rparr>)]"

section \<open>Properties\<close>

subsection \<open>Dictionaries\<close>

lemma map_of_dict_set: "map_of (dict_set k v d) = (map_of d)(k \<mapsto> v)"
  by (induction d) (auto simp: fun_eq_iff)

lemma dict_get_dict_set:
  "dict_get (dict_set k v d) k' dflt = (if k' = k then v else dict_get d k' dflt)"
  by (simp add: dict_get_def map_of_dict_set)

lemma dict_get_Nil [simp]: "dict_get [] k dflt = dflt"
  by (simp add: dict_get_def)

lemma keys_dict_set:
  "map fst (dict_set k v d) = (if k \<in> set (map fst d) then map fst d else map fst d @ [k])"
  by (induction d) (force split: if_splits)+

lemma wf_dict_set: "wf_dict d \<Longrightarrow> wf_dict (dict_set k v d)"
  by (simp add: wf_dict_def keys_dict_set)

text \<open>A nested loop over a list of dictionaries visits the entries in concatenation order.\<close>

lemma fold_fold_concat: "fold (\<lambda>m g. fold f m g) ps g = fold f (concat ps) g"
  by (induction ps arbitrary: g) simp_all

subsection \<open>Partitioner\<close>

lemma length_ranges: "length (ranges N W) = nat W"
  by (simp add: ranges_def)

lemma nth_ranges:
  assumes "i < nat W"
  shows "ranges N W ! i =
    (int i * base N W, if int i < W - 1 then (int i + 1) * base N W else N)"
proof -
  from assms have "0 + int i \<le> W - 1" by linarith
  then have "[0..W - 1] ! i = 0 + int i" by (rule nth_upto)
  moreover from assms have "i < length [0..W - 1]" by simp
  ultimately show ?thesis by (simp add: ranges_def)
qed

lemma base_bounds:
  assumes "0 < N" "1 \<le> W"
  shows "0 \<le> base N W" and "base N W * W \<le> N"
proof -
  from assms show "0 \<le> base N W"
    by (simp add: base_def pos_imp_zdiv_nonneg_iff)
  have "W * (N div W) + N mod W = N" by simp
  moreover from assms have "0 \<le> N mod W" by simp
  ultimately have "W * (N div W) \<le> N" by linarith
  then show "base N W * W \<le> N"
    by (simp add: base_def mult.commute)
qed

lemma base_prefix_le:
  assumes "0 < N" "1 \<le> W" "0 \<le> k" "k \<le> W"
  shows "k * base N W \<le> N"
proof -
  from assms base_bounds [of N W] have "k * base N W \<le> W * base N W"
    by (intro mult_right_mono) auto
  with assms base_bounds [of N W] show ?thesis
    by (simp add: mult.commute)
qed

lemma range_sizes_sum_aux:
  assumes "0 \<le> m"
  shows "sum_list (map (\<lambda>w. (if w < m then (w + 1) * b else (N::int)) - w * b) [0..m]) = N"
proof -
  have const: "sum_list (map (\<lambda>w. b) [0..k]) = (k + 1) * b" if "-1 \<le> k" for k :: int
    using that
  proof (induction k rule: int_ge_induct)
    case base
    then show ?case by simp
  next
    case (step i)
    then have "[0..i + 1] = [0..i] @ [i + 1]"
      by (simp add: upto_rec2)
    with step show ?case
      by (simp add: algebra_simps)
  qed
  let ?f = "\<lambda>w. (if w < m then (w + 1) * b else N) - w * b"
  from assms have "[0..m] = [0..m - 1] @ [m]"
    by (simp add: upto_rec2)
  then have "sum_list (map ?f [0..m]) = sum_list (map ?f [0..m - 1]) + ?f m"
    by simp
  also have "map ?f [0..m - 1] = map (\<lambda>w. b) [0..m - 1]"
    by (rule map_cong) (auto simp: algebra_simps)
  also from assms have "sum_list (map (\<lambda>w. b) [0..m - 1]) = (m - 1 + 1) * b"
    by (intro const) simp
  finally show ?thesis
    by (simp add: algebra_simps)
qed

lemma sum_range_sizes:
  assumes "0 < N" "1 \<le> W"
  shows "sum_list (range_sizes (ranges N W)) = N"
proof -
  have "range_sizes (ranges N W) =
      map (\<lambda>w. (if w < W - 1 then (w + 1) * base N W else N) - w * base N W) [0..W - 1]"
    by (simp add: range_sizes_def ranges_def comp_def)
  moreover from assms have "0 \<le> W - 1" by simp
  ultimately show ?thesis
    using range_sizes_sum_aux [of "W - 1" "base N W" N]
    by simp
qed

lemma ranges_disjoint:
  assumes "0 < N" "1 \<le> W" "i < j" "j < nat W"
    and "k < snd (ranges N W ! i)" "fst (ranges N W ! j) \<le> k"
  shows False
proof -
  have b0: "0 \<le> base N W" using assms base_bounds by simp
  from assms have "int i + 1 \<le> int j" by simp
  then have "(int i + 1) * base N W \<le> int j * base N W"
    using b0 by (rule mult_right_mono)
  moreover from assms have "int i < W - 1" and "i < nat W" by linarith+
  then have "snd (ranges N W ! i) = (int i + 1) * base N W"
    by (simp add: nth_ranges)
  moreover from assms have "fst (ranges N W ! j) = int j * base N W"
    by (simp add: nth_ranges)
  ultimately show False using assms by simp
qed

lemma ranges_hit:
  assumes "0 < N" "1 \<le> W" "0 \<le> k" "k < N"
  shows "\<exists>i. i < nat W \<and> fst (ranges N W ! i) \<le> k \<and> k < snd (ranges N W ! i)"
proof (cases "k < (W - 1) * base N W")
  case True
  let ?b = "base N W"
  have b0: "0 \<le> ?b" using assms base_bounds by simp
  with True assms have bpos: "0 < ?b"
    by (cases "?b = 0") auto
  define q where "q = k div ?b"
  have "?b * q + k mod ?b = k" by (simp add: q_def)
  moreover from bpos have "0 \<le> k mod ?b" "k mod ?b < ?b" by simp_all
  ultimately have lo: "q * ?b \<le> k" and hi: "k < (q + 1) * ?b"
    by (simp_all add: algebra_simps)
  from assms bpos have q0: "0 \<le> q" by (simp add: q_def pos_imp_zdiv_nonneg_iff)
  from lo True have "q * ?b < (W - 1) * ?b" by simp
  with bpos have qW: "q < W - 1" by (simp add: mult_less_cancel_right)
  with q0 have "nat q < nat W" by simp
  moreover from q0 qW lo hi have "fst (ranges N W ! nat q) \<le> k \<and> k < snd (ranges N W ! nat q)"
    by (simp add: nth_ranges)
  ultimately show ?thesis by blast
next
  case False
  with assms have "nat (W - 1) < nat W"
    and "fst (ranges N W ! nat (W - 1)) \<le> k \<and> k < snd (ranges N W ! nat (W - 1))"
    by (simp_all add: nth_ranges)
  then show ?thesis by blast
qed

lemma range_cover:
  assumes "0 < N" "1 \<le> W" "0 \<le> k" "k < N"
  shows "\<exists>!i. i < nat W \<and> fst (ranges N W ! i) \<le> k \<and> k < snd (ranges N W ! i)"
proof -
  from ranges_hit [OF assms] obtain i where
    i: "i < nat W" "fst (ranges N W ! i) \<le> k" "k < snd (ranges N W ! i)" by blast
  have "j = i" if "j < nat W" "fst (ranges N W ! j) \<le> k" "k < snd (ranges N W ! j)" for j
  proof (rule ccontr)
    assume "j \<noteq> i"
    then consider "j < i" | "i < j" by linarith
    then show False
    proof cases
      case 1
      from ranges_disjoint [OF assms(1,2) 1 i(1) that(3) i(2)] show False .
    next
      case 2
      from ranges_disjoint [OF assms(1,2) 2 that(1) i(3) that(2)] show False .
    qed
  qed
  with i show ?thesis by blast
qed

text \<open>
  Claim C3.  For every total row count \<open>N > 0\<close> and worker count \<open>W \<ge> 1\<close> the
  partitioner yields exactly \<open>W\<close> ranges; the first starts at 0, the last ends at \<open>N\<close>,
  each range ends where the next begins, each of the first \<open>W - 1\<close> ranges has
  \<open>N div W\<close> rows and the last has the remaining \<open>N - (W - 1) * (N div W)\<close> rows, no
  range is reversed, every row index of \<open>[0, N)\<close> lies in exactly one range, and the
  sizes sum to \<open>N\<close>.  The per-rank computation of \<^verbatim>\<open>t3.py\<close> gives the same ranges and
  its \<^verbatim>\<open>chunks\<close> list is the list of their sizes.
\<close>

theorem partition_coverage:
  assumes "0 < N" "1 \<le> W"
  shows "length (ranges N W) = nat W
    \<and> fst (ranges N W ! 0) = 0
    \<and> snd (ranges N W ! (nat W - 1)) = N
    \<and> (\<forall>i. Suc i < nat W \<longrightarrow> snd (ranges N W ! i) = fst (ranges N W ! Suc i))
    \<and> (\<forall>i. Suc i < nat W \<longrightarrow> range_sizes (ranges N W) ! i = N div W)
    \<and> range_sizes (ranges N W) ! (nat W - 1) = N - (W - 1) * (N div W)
    \<and> (\<forall>i < nat W. fst (ranges N W ! i) \<le> snd (ranges N W ! i))
    \<and> (\<forall>k. 0 \<le> k \<and> k < N \<longrightarrow>
          (\<exists>!i. i < nat W \<and> fst (ranges N W ! i) \<le> k \<and> k < snd (ranges N W ! i)))
    \<and> sum_list (range_sizes (ranges N W)) = N
    \<and> (\<forall>i < nat W. rank_range N W (int i) = ranges N W ! i)
    \<and> chunks N W = range_sizes (ranges N W)"
proof -
  have len: "length (ranges N W) = nat W" by (rule length_ranges)
  from assms have first: "fst (ranges N W ! 0) = 0" by (simp add: nth_ranges)
  from assms have lst: "snd (ranges N W ! (nat W - 1)) = N" by (simp add: nth_ranges)
  have contig: "\<forall>i. Suc i < nat W \<longrightarrow> snd (ranges N W ! i) = fst (ranges N W ! Suc i)"
    by (auto simp: nth_ranges algebra_simps)
  have sz: "\<forall>i. Suc i < nat W \<longrightarrow> range_sizes (ranges N W) ! i = N div W"
    by (auto simp: range_sizes_def length_ranges nth_ranges base_def algebra_simps)
  from assms have szl: "range_sizes (ranges N W) ! (nat W - 1) = N - (W - 1) * (N div W)"
    by (simp add: range_sizes_def length_ranges nth_ranges base_def algebra_simps)
  have mono: "\<forall>i < nat W. fst (ranges N W ! i) \<le> snd (ranges N W ! i)"
  proof (intro allI impI)
    fix i assume i: "i < nat W"
    show "fst (ranges N W ! i) \<le> snd (ranges N W ! i)"
    proof (cases "int i < W - 1")
      case True
      with i base_bounds(1) [OF assms] show ?thesis
        by (simp add: nth_ranges algebra_simps)
    next
      case False
      with i have "int i = W - 1" by linarith
      with i base_prefix_le [OF assms, of "W - 1"] show ?thesis
        by (simp add: nth_ranges)
    qed
  qed
  have cover: "\<forall>k. 0 \<le> k \<and> k < N \<longrightarrow>
      (\<exists>!i. i < nat W \<and> fst (ranges N W ! i) \<le> k \<and> k < snd (ranges N W ! i))"
    using range_cover [OF assms] by blast
  have total: "sum_list (range_sizes (ranges N W)) = N"
    by (rule sum_range_sizes [OF assms])
  have rr: "\<forall>i < nat W. rank_range N W (int i) = ranges N W ! i"
    by (simp add: rank_range_def nth_ranges)
  have ch: "chunks N W = range_sizes (ranges N W)"
  proof (rule nth_equalityI)
    from assms show "length (chunks N W) = length (range_sizes (ranges N W))"
      by (simp add: chunks_def range_sizes_def length_ranges)
  next
    fix i assume "i < length (chunks N W)"
    with assms have i: "i < nat W" by (simp add: chunks_def)
    show "chunks N W ! i = range_sizes (ranges N W) ! i"
    proof (cases "int i < W - 1")
      case True
      then have "i < nat (W - 1)" by linarith
      with i True show ?thesis
        by (simp add: chunks_def range_sizes_def length_ranges nth_ranges nth_append algebra_simps)
    next
      case False
      with i have "i = nat (W - 1)" by linarith
      moreover from assms have "nat (W - 1) < nat W" by simp
      ultimately show ?thesis using assms
        by (simp add: chunks_def range_sizes_def length_ranges nth_ranges nth_append algebra_simps)
    qed
  qed
  from len first lst contig sz szl mono cover total rr ch show ?thesis by blast
qed

theorem partition_coverage_witness:
  "(0::int) < 10 \<and> (1::int) \<le> 3 \<and> ranges 10 3 = [(0, 3), (3, 6), (6, 10)]
    \<and> length (ranges 10 3) = 3 \<and> sum_list (range_sizes (ranges 10 3)) = 10"
proof -
  have h: "(0::int) < 10" "(1::int) \<le> 3" by simp_all
  from partition_coverage [OF h]
  have "length (ranges 10 3) = nat 3" and "sum_list (range_sizes (ranges 10 3)) = 10"
    by blast+
  moreover have "ranges 10 3 = [(0, 3), (3, 6), (6, 10)]"
    by (simp add: ranges_def base_def upto.simps)
  ultimately show ?thesis by simp
qed

subsection \<open>Canonical label\<close>

lemma hd_sort_min:
  fixes xs :: "'a::linorder list"
  assumes "xs \<noteq> []"
  shows "hd (sort xs) \<in> set xs" and "\<forall>y \<in> set xs. hd (sort xs) \<le> y"
proof -
  from assms have ne: "sort xs \<noteq> []" by (metis length_sort length_0_conv)
  then have "hd (sort xs) \<in> set (sort xs)" by (rule hd_in_set)
  then show "hd (sort xs) \<in> set xs" by simp
  have "sorted (sort xs)" by simp
  with ne have "\<forall>y \<in> set (sort xs). hd (sort xs) \<le> y"
    by (cases "sort xs") auto
  then show "\<forall>y \<in> set xs. hd (sort xs) \<le> y" by simp
qed

lemma top_candidates_set:
  "set (top_candidates counts) = {n. (n, Max (set (map snd counts))) \<in> set counts}"
  by (force simp: top_candidates_def Let_def)

text \<open>\<^verbatim>\<open>candidates[0]\<close> never raises: some label has the top count.\<close>

lemma top_candidates_nonempty:
  assumes "counts \<noteq> []"
  shows "top_candidates counts \<noteq> []"
proof -
  from assms have "Max (set (map snd counts)) \<in> set (map snd counts)"
    by (intro Max_in) auto
  then obtain n where "(n, Max (set (map snd counts))) \<in> set counts" by auto
  then have "n \<in> set (top_candidates counts)" by (simp add: top_candidates_set)
  then show ?thesis by auto
qed

lemma hd_top_candidates:
  assumes "counts \<noteq> []"
  defines "n \<equiv> hd (top_candidates counts)" and "v \<equiv> Max (set (map snd counts))"
  shows "(n, v) \<in> set counts" and "\<forall>(m, w) \<in> set counts. w \<le> v"
    and "\<forall>m. (m, v) \<in> set counts \<longrightarrow> n \<le> m"
proof -
  let ?c = "map fst (filter (\<lambda>(n, w). w = v) counts)"
  have tc: "top_candidates counts = sort ?c"
    by (simp add: top_candidates_def v_def)
  from top_candidates_nonempty [OF assms(1)] have ne: "?c \<noteq> []"
    unfolding tc by (metis length_sort length_0_conv)
  from hd_sort_min(1) [OF ne] show "(n, v) \<in> set counts"
    by (auto simp: n_def tc)
  show "\<forall>(m, w) \<in> set counts. w \<le> v"
    by (force simp: v_def intro!: Max_ge)
  from hd_sort_min(2) [OF ne] show "\<forall>m. (m, v) \<in> set counts \<longrightarrow> n \<le> m"
    by (force simp: n_def tc)
qed

text \<open>
  Claim C6, as the code has it.  On a non-empty label frequency map both pickers
  return a label whose count \<open>v\<close> is the highest count of the map and which is the
  smallest, in the order of strings, of the labels with that count; for
  \<^verbatim>\<open>{"Bob": 2, "Amy": 2, "Zoe": 1}\<close> that is \<^verbatim>\<open>"Amy"\<close>.  On the empty map
  \<^verbatim>\<open>pick_display_name\<close> of Q3 returns the entity id, and \<^verbatim>\<open>pick_title\<close> of Q4, which is
  not given the id, returns the empty string.
\<close>

theorem pick_label_amended:
  "(counts \<noteq> [] \<longrightarrow>
      (\<exists>v. (pick_display_name uid counts, v) \<in> set counts
         \<and> (\<forall>(m, w) \<in> set counts. w \<le> v)
         \<and> (\<forall>m. (m, v) \<in> set counts \<longrightarrow> pick_display_name uid counts \<le> m))
      \<and> pick_title counts = pick_display_name uid counts)
   \<and> pick_display_name uid [(''Bob'', 2), (''Amy'', 2), (''Zoe'', 1)] = ''Amy''
   \<and> pick_title [(''Bob'', 2), (''Amy'', 2), (''Zoe'', 1)] = ''Amy''
   \<and> pick_display_name uid [] = uid
   \<and> pick_title [] = []"
proof -
  have general: "(\<exists>v. (pick_display_name uid counts, v) \<in> set counts
         \<and> (\<forall>(m, w) \<in> set counts. w \<le> v)
         \<and> (\<forall>m. (m, v) \<in> set counts \<longrightarrow> pick_display_name uid counts \<le> m))
      \<and> pick_title counts = pick_display_name uid counts" if ne: "counts \<noteq> []"
  proof -
    from ne have eq: "pick_display_name uid counts = hd (top_candidates counts)"
      and eq': "pick_title counts = hd (top_candidates counts)"
      by (simp_all add: pick_display_name_def pick_title_def)
    show ?thesis
      unfolding eq eq'
      by (intro conjI exI [where x = "Max (set (map snd counts))"] hd_top_candidates [OF ne] refl)
  qed
  have amy: "top_candidates [(''Bob'', 2), (''Amy'', 2), (''Zoe'', 1)] = [''Amy'', ''Bob'']"
    by (simp add: top_candidates_def)
  have "pick_display_name uid [(''Bob'', 2), (''Amy'', 2), (''Zoe'', 1)] = ''Amy''"
    and "pick_title [(''Bob'', 2), (''Amy'', 2), (''Zoe'', 1)] = ''Amy''"
    by (simp_all add: pick_display_name_def pick_title_def amy)
  moreover have "pick_display_name uid [] = uid" and "pick_title [] = []"
    by (simp_all add: pick_display_name_def pick_title_def)
  ultimately show ?thesis using general by blast
qed

theorem pick_label_amended_witness:
  "[(''x'', 1::int), (''a'', 1)] \<noteq> []
   \<and> (\<exists>v. (pick_display_name ''u'' [(''x'', 1), (''a'', 1)], v) \<in> set [(''x'', 1), (''a'', 1)]
         \<and> (\<forall>(m, w) \<in> set [(''x'', 1::int), (''a'', 1)]. w \<le> v)
         \<and> (\<forall>m. (m, v) \<in> set [(''x'', 1), (''a'', 1)]
               \<longrightarrow> pick_display_name ''u'' [(''x'', 1), (''a'', 1)] \<le> m))
   \<and> pick_title [(''x'', 1), (''a'', 1)] = pick_display_name ''u'' [(''x'', 1), (''a'', 1)]
   \<and> pick_display_name ''u'' [(''x'', 1), (''a'', 1)] = ''a''"
proof -
  have ne: "[(''x'', 1::int), (''a'', 1)] \<noteq> []" by simp
  have val: "pick_display_name ''u'' [(''x'', 1), (''a'', 1)] = ''a''"
    by (simp add: pick_display_name_def top_candidates_def)
  from pick_label_amended [where counts = "[(''x'', 1), (''a'', 1)]" and uid = "''u''"] ne
  have "(\<exists>v. (pick_display_name ''u'' [(''x'', 1), (''a'', 1)], v) \<in> set [(''x'', 1), (''a'', 1)]
         \<and> (\<forall>(m, w) \<in> set [(''x'', 1::int), (''a'', 1)]. w \<le> v)
         \<and> (\<forall>m. (m, v) \<in> set [(''x'', 1), (''a'', 1)]
               \<longrightarrow> pick_display_name ''u'' [(''x'', 1), (''a'', 1)] \<le> m))
   \<and> pick_title [(''x'', 1), (''a'', 1)] = pick_display_name ''u'' [(''x'', 1), (''a'', 1)]"
    by blast
  with ne val show ?thesis by blast
qed

text \<open>
  The claim's fallback to the entity id fails for Q4: a book \<^verbatim>\<open>"B1"\<close> whose rows carry
  no title has the canonical title \<^verbatim>\<open>""\<close>, and the final answer is keyed by it.
\<close>

theorem pick_title_empty_counterexample:
  "pick_title [] \<noteq> ''B1''
   \<and> q4_final [(''B1'', \<lparr>b_sum = 3, b_cnt = 1, b_price = Some (Fin 2), b_title_counts = []\<rparr>)]
       = [([], Fin 2)]"
  by (simp add: q4_final_def top10_def q4_sorted_def dict_of_pairs_def pick_title_def)

subsection \<open>Skipped rows\<close>

lemma q3_step_skipped: "skipped_row UId r \<Longrightarrow> q3_step r loc = Inr loc"
  by (auto simp: skipped_row_def q3_step_def split: option.splits)

lemma q4_step_skipped: "skipped_row BId r \<Longrightarrow> q4_step r loc = Inr loc"
  by (auto simp: skipped_row_def q4_step_def split: option.splits)

lemma q3_loop_filter:
  "q3_loop (filter (\<lambda>r. \<not> skipped_row UId r) rs) loc = q3_loop rs loc"
  by (induction rs arbitrary: loc) (simp_all add: q3_step_skipped split: sum.splits)

lemma q4_loop_filter:
  "q4_loop (filter (\<lambda>r. \<not> skipped_row BId r) rs) loc = q4_loop rs loc"
  by (induction rs arbitrary: loc) (simp_all add: q4_step_skipped split: sum.splits)

lemma check_columns_rows [simp]:
  "check_columns cols (df\<lparr>rows := rs\<rparr>) = check_columns cols df"
  by (induction cols) simp_all

lemma q3_work_without:
  "q3_work (without_rows (skipped_row UId) read) lo hi = q3_work read lo hi"
  by (simp add: q3_work_def without_rows_def q3_loop_filter split: sum.splits option.splits)

lemma q4_work_without:
  "q4_work (without_rows (skipped_row BId) read) lo hi = q4_work read lo hi"
  by (simp add: q4_work_def without_rows_def q4_loop_filter split: sum.splits option.splits)

lemma q2_scores_filter:
  "q2_scores (filter (\<lambda>r. \<not> skipped_row BId r) rs) bid = q2_scores rs bid"
  by (induction rs) (auto simp: q2_scores_def skipped_row_def)

text \<open>
  Claim C9, as the code has it.  In Q3 and Q4 a row whose rating is missing or whose
  primary entity id (the user id in Q3, the book id in Q4) is missing changes nothing:
  the loop body returns the dictionary it was given, and the whole output of \<^verbatim>\<open>_work\<close>
  (payload, count of entities, or the error) is the output on the slice with those rows
  removed.  In Q2 such rows leave the sum and the count of every book unchanged.
\<close>

theorem row_skip_amended:
  "(skipped_row UId r \<longrightarrow> q3_step r umap = Inr umap)
   \<and> (skipped_row BId r \<longrightarrow> q4_step r bmap = Inr bmap)
   \<and> q3_work (without_rows (skipped_row UId) read) lo hi = q3_work read lo hi
   \<and> q4_work (without_rows (skipped_row BId) read) lo hi = q4_work read lo hi
   \<and> sum_per_book ops (filter (\<lambda>r. \<not> skipped_row BId r) rs) bid = sum_per_book ops rs bid
   \<and> cnt_per_book (filter (\<lambda>r. \<not> skipped_row BId r) rs) bid = cnt_per_book rs bid"
  by (simp add: q3_step_skipped q4_step_skipped q3_work_without q4_work_without
      sum_per_book_def cnt_per_book_def q2_scores_filter)

theorem row_skip_amended_witness:
  "skipped_row UId (skip_rows ! 1) \<and> skipped_row BId (skip_rows ! 3)
   \<and> q3_step (skip_rows ! 1) [] = Inr []
   \<and> q4_step (skip_rows ! 3) [] = Inr []
   \<and> q3_work (without_rows (skipped_row UId) skip_reader) 0 4 = q3_work skip_reader 0 4
   \<and> q3_work skip_reader 0 4 =
       Inr ([(''U1'', \<lparr>u_sum = 3, u_cnt = 1, u_books = {''B1''}, u_name_counts = [(''Ann'', 1)]\<rparr>)], 1)
   \<and> q4_work (without_rows (skipped_row BId) skip_reader) 0 4 = q4_work skip_reader 0 4
   \<and> q4_work skip_reader 0 4 =
       Inr ([(''B1'', \<lparr>b_sum = 3, b_cnt = 1, b_price = Some (Fin 7), b_title_counts = [(''T'', 1)]\<rparr>),
             (''B2'', \<lparr>b_sum = 5, b_cnt = 1, b_price = Some (Fin 8), b_title_counts = [(''S'', 1)]\<rparr>)], 2)"
proof -
  have s1: "skipped_row UId (skip_rows ! 1)" and s3: "skipped_row BId (skip_rows ! 3)"
    by (simp_all add: skip_rows_def skipped_row_def)
  note inst = row_skip_amended [where read = skip_reader and lo = 0 and hi = 4]
  from s1 inst [where r = "skip_rows ! 1" and umap = "[]"]
  have a: "q3_step (skip_rows ! 1) [] = Inr []" by blast
  from s3 inst [where r = "skip_rows ! 3" and bmap = "[]"]
  have b: "q4_step (skip_rows ! 3) [] = Inr []" by blast
  from inst have c: "q3_work (without_rows (skipped_row UId) skip_reader) 0 4 = q3_work skip_reader 0 4"
    and d: "q4_work (without_rows (skipped_row BId) skip_reader) 0 4 = q4_work skip_reader 0 4"
    by blast+
  have e: "q3_work skip_reader 0 4 =
       Inr ([(''U1'', \<lparr>u_sum = 3, u_cnt = 1, u_books = {''B1''}, u_name_counts = [(''Ann'', 1)]\<rparr>)], 1)"
    by (simp add: q3_work_def skip_reader_def skip_rows_def q3_step_def dict_get_def
        user_default_def counter_add_def strip_def isspace_def)
  have f: "q4_work skip_reader 0 4 =
       Inr ([(''B1'', \<lparr>b_sum = 3, b_cnt = 1, b_price = Some (Fin 7), b_title_counts = [(''T'', 1)]\<rparr>),
             (''B2'', \<lparr>b_sum = 5, b_cnt = 1, b_price = Some (Fin 8), b_title_counts = [(''S'', 1)]\<rparr>)], 2)"
    by (simp add: q4_work_def skip_reader_def skip_rows_def q4_step_def dict_get_def
        book_default_def counter_add_def strip_def isspace_def)
  from s1 s3 a b c d e f show ?thesis by blast
qed

text \<open>
  The claim's equality of outputs fails for the aggregator of Q2: a row of book \<^verbatim>\<open>B1\<close>
  with a price and no rating gives the part map an entry for \<^verbatim>\<open>B1\<close> with count 0 and
  that price, and without the row the part map has no entry.
\<close>

theorem row_skip_q2_counterexample:
  "skipped_row BId unrated_row
   \<and> q2_keys [unrated_row] = [''B1'']
   \<and> cnt_per_book [unrated_row] ''B1'' = 0
   \<and> price_any [unrated_row] ''B1'' = Some (Fin 2)
   \<and> q2_keys (filter (\<lambda>r. \<not> skipped_row BId r) [unrated_row]) = []"
  by (simp add: unrated_row_def skipped_row_def q2_keys_def cnt_per_book_def q2_scores_def
      price_any_def)

subsection \<open>First-seen price\<close>

lemma q4_step_price:
  assumes "q4_step r loc = Inr loc'"
  shows "b_price (dict_get loc' bid book_default) =
    (case b_price (dict_get loc bid book_default) of
       Some p \<Rightarrow> Some p
     | None \<Rightarrow> if RScore r \<noteq> None \<and> BId r = Some bid then BPrice r else None)"
  using assms
  by (auto simp: q4_step_def Let_def dict_get_dict_set split: option.splits sum.splits if_splits)

lemma q4_loop_price:
  assumes "q4_loop rs loc = Inr loc'"
  shows "b_price (dict_get loc' bid book_default) =
    (case b_price (dict_get loc bid book_default) of
       Some p \<Rightarrow> Some p
     | None \<Rightarrow> first_price rs bid)"
  using assms
proof (induction rs arbitrary: loc)
  case Nil
  then show ?case by (simp add: first_price_def split: option.splits)
next
  case (Cons r rs)
  from Cons.prems obtain mid where step: "q4_step r loc = Inr mid" and rest: "q4_loop rs mid = Inr loc'"
    by (auto split: sum.splits)
  show ?case
    unfolding Cons.IH [OF rest] q4_step_price [OF step]
    by (auto simp: first_price_def split: option.splits)
qed

lemma q4_loop_append:
  "q4_loop (rs @ rs2) loc = (case q4_loop rs loc of Inl e \<Rightarrow> Inl e | Inr mid \<Rightarrow> q4_loop rs2 mid)"
  by (induction rs arbitrary: loc) (simp_all split: sum.splits)

lemma q4_loop_price_kept:
  assumes "q4_loop rs [] = Inr loc" and "q4_loop (rs @ rs2) [] = Inr loc2"
    and "b_price (dict_get loc bid book_default) = Some p"
  shows "b_price (dict_get loc2 bid book_default) = Some p"
proof -
  from assms(1,2) have "q4_loop rs2 loc = Inr loc2" by (simp add: q4_loop_append)
  from q4_loop_price [OF this, of bid] assms(3) show ?thesis by simp
qed

lemma price_any_alt:
  "price_any rs bid =
     (let ps = List.map_filter BPrice (filter (\<lambda>r. BId r = Some bid) rs)
      in if ps = [] then None else Some (last ps))"
  by (simp add: price_any_def split: list.splits)

lemma price_any_snoc:
  "price_any (rs @ [r]) bid =
     (if BId r = Some bid \<and> BPrice r \<noteq> None then BPrice r else price_any rs bid)"
  by (cases "BPrice r") (simp_all add: price_any_alt List.map_filter_def)

lemma last_price_snoc:
  "last_price (rs @ [r]) bid =
     (if BId r = Some bid \<and> BPrice r \<noteq> None then BPrice r else last_price rs bid)"
  by (cases "BPrice r") (simp_all add: last_price_def)

lemma price_any_last_price: "price_any rs bid = last_price rs bid"
proof (induction rs rule: rev_induct)
  case Nil
  show ?case by (simp add: price_any_def last_price_def List.map_filter_def)
next
  case (snoc r rs)
  then show ?case by (simp only: price_any_snoc last_price_snoc)
qed

lemma map_of_q2_part_map:
  "map_of (q2_part_map ops rs) bid =
     (if bid \<in> set (q2_keys rs)
      then Some (sum_per_book ops rs bid, cnt_per_book rs bid, price_any rs bid) else None)"
proof -
  have "map_of (map (\<lambda>k. (k, f k)) ks) bid = (if bid \<in> set ks then Some (f bid) else None)"
    for f :: "string \<Rightarrow> q2_entry" and ks
    by (induction ks) auto
  then show ?thesis by (simp add: q2_part_map_def)
qed

lemma q4_merge_item_price:
  "b_price (dict_get (q4_merge_item (k, info) books) bid book_default) =
    (case b_price (dict_get books bid book_default) of
       Some p \<Rightarrow> Some p
     | None \<Rightarrow> if k = bid then b_price info else None)"
  by (auto simp: q4_merge_item_def q4_combine_def dict_get_dict_set split: option.splits)

lemma q4_fold_price:
  "b_price (dict_get (fold q4_merge_item items books) bid book_default) =
    (case b_price (dict_get books bid book_default) of
       Some p \<Rightarrow> Some p
     | None \<Rightarrow> (case find (\<lambda>(k, e). k = bid \<and> b_price e \<noteq> None) items of
                  None \<Rightarrow> None | Some (k, e) \<Rightarrow> b_price e))"
proof (induction items arbitrary: books)
  case Nil
  then show ?case by (simp split: option.splits)
next
  case (Cons it items)
  obtain k info where it: "it = (k, info)" by (cases it)
  show ?case
    by (simp add: it Cons.IH q4_merge_item_price split: option.splits)
qed

lemma q4_merge_concat: "q4_merge ps = fold q4_merge_item (concat ps) []"
  by (simp add: q4_merge_def fold_fold_concat)

lemma q4_merge_append: "q4_merge (ps @ ps2) = fold q4_merge_item (concat ps2) (q4_merge ps)"
  by (simp add: q4_merge_concat)

lemma q4_merge_price: "b_price (dict_get (q4_merge ps) bid book_default) = first_writer b_price ps bid"
  unfolding q4_merge_concat q4_fold_price first_writer_def
  by (simp add: book_default_def)

text \<open>The price component of a Q2 entry, \<^verbatim>\<open>g[2]\<close>.\<close>

lemma q2_merge_item_price:
  "snd (snd (dict_get (q2_merge_item ops (k, e) g) bid (Some (Fin 0), 0, None))) =
    (case snd (snd (dict_get g bid (Some (Fin 0), 0, None))) of
       Some p \<Rightarrow> Some p
     | None \<Rightarrow> if k = bid then snd (snd e) else None)"
  by (cases e) (auto simp: q2_merge_item_def q2_combine_def dict_get_dict_set
      split: option.splits prod.splits)

lemma q2_fold_price:
  "snd (snd (dict_get (fold (q2_merge_item ops) items g) bid (Some (Fin 0), 0, None))) =
    (case snd (snd (dict_get g bid (Some (Fin 0), 0, None))) of
       Some p \<Rightarrow> Some p
     | None \<Rightarrow> (case find (\<lambda>(k, e). k = bid \<and> snd (snd e) \<noteq> None) items of
                  None \<Rightarrow> None | Some (k, e) \<Rightarrow> snd (snd e)))"
proof (induction items arbitrary: g)
  case Nil
  then show ?case by (simp split: option.splits)
next
  case (Cons it items)
  obtain k e where it: "it = (k, e)" by (cases it)
  show ?case
    by (simp add: it Cons.IH q2_merge_item_price split: option.splits)
qed

lemma q2_merge_concat: "q2_merge ops ps = fold (q2_merge_item ops) (concat ps) []"
  by (simp add: q2_merge_def fold_fold_concat)

lemma q2_merge_append:
  "q2_merge ops (ps @ ps2) = fold (q2_merge_item ops) (concat ps2) (q2_merge ops ps)"
  by (simp add: q2_merge_concat)

lemma q2_merge_price:
  "snd (snd (dict_get (q2_merge ops ps) bid (Some (Fin 0), 0, None))) =
     first_writer (\<lambda>e. snd (snd e)) ps bid"
  unfolding q2_merge_concat q2_fold_price first_writer_def
  by simp

text \<open>
  Claim C7, as the code has it.  The local aggregator of Q4 captures, for each book, the
  price of the first row counted for the book (rating and book id present) whose price
  is not missing, and a later row never overwrites a captured price.  The local
  aggregator of Q2 keeps, for each book id of the slice, the price of the last row with
  that id whose price is not missing.  In the merges of Q4 and Q2 the price of an
  entity is that of the first entry, in fold order, that carries one, and a later
  partial map never overwrites it.
\<close>

theorem price_capture_amended:
  "(q4_loop rs [] = Inr loc \<longrightarrow> b_price (dict_get loc bid book_default) = first_price rs bid)
   \<and> (q4_loop rs [] = Inr loc \<and> q4_loop (rs @ rs') [] = Inr loc'
        \<and> b_price (dict_get loc bid book_default) = Some p
      \<longrightarrow> b_price (dict_get loc' bid book_default) = Some p)
   \<and> (bid \<in> set (q2_keys rs) \<longrightarrow>
        map_of (q2_part_map ops rs) bid
          = Some (sum_per_book ops rs bid, cnt_per_book rs bid, last_price rs bid))
   \<and> b_price (dict_get (q4_merge ps) bid book_default) = first_writer b_price ps bid
   \<and> (b_price (dict_get (q4_merge ps) bid book_default) = Some p
      \<longrightarrow> b_price (dict_get (q4_merge (ps @ ps')) bid book_default) = Some p)
   \<and> snd (snd (dict_get (q2_merge ops qs) bid (Some (Fin 0), 0, None)))
        = first_writer (\<lambda>e. snd (snd e)) qs bid
   \<and> (snd (snd (dict_get (q2_merge ops qs) bid (Some (Fin 0), 0, None))) = Some p
      \<longrightarrow> snd (snd (dict_get (q2_merge ops (qs @ qs')) bid (Some (Fin 0), 0, None))) = Some p)"
proof -
  have a: "q4_loop rs [] = Inr loc \<longrightarrow> b_price (dict_get loc bid book_default) = first_price rs bid"
    using q4_loop_price [of rs "[]" loc bid] by (simp add: book_default_def)
  have b: "q4_loop rs [] = Inr loc \<and> q4_loop (rs @ rs') [] = Inr loc'
        \<and> b_price (dict_get loc bid book_default) = Some p
      \<longrightarrow> b_price (dict_get loc' bid book_default) = Some p"
    using q4_loop_price_kept by blast
  have c: "bid \<in> set (q2_keys rs) \<longrightarrow>
        map_of (q2_part_map ops rs) bid
          = Some (sum_per_book ops rs bid, cnt_per_book rs bid, last_price rs bid)"
    by (simp add: map_of_q2_part_map price_any_last_price)
  have d: "b_price (dict_get (q4_merge ps) bid book_default) = Some p
      \<longrightarrow> b_price (dict_get (q4_merge (ps @ ps')) bid book_default) = Some p"
    by (simp add: q4_merge_append q4_fold_price)
  have e: "snd (snd (dict_get (q2_merge ops qs) bid (Some (Fin 0), 0, None))) = Some p
      \<longrightarrow> snd (snd (dict_get (q2_merge ops (qs @ qs')) bid (Some (Fin 0), 0, None))) = Some p"
    by (simp add: q2_merge_append q2_fold_price)
  from a b c d e q4_merge_price [of ps bid] q2_merge_price [of ops qs bid]
  show ?thesis by blast
qed

theorem price_capture_amended_witness:
  "q4_loop price_rows [] =
      Inr [(''B1'', \<lparr>b_sum = 10, b_cnt = 2, b_price = Some (Fin 10), b_title_counts = [(''T'', 2)]\<rparr>)]
   \<and> first_price price_rows ''B1'' = Some (Fin 10)
   \<and> ''B1'' \<in> set (q2_keys price_rows)
   \<and> (\<forall>ops. map_of (q2_part_map ops price_rows) ''B1''
         = Some (sum_per_book ops price_rows ''B1'', 2, Some (Fin 20)))
   \<and> b_price (dict_get (q4_merge [part_a]) ''B1'' book_default) = Some (Fin 10)
   \<and> b_price (dict_get (q4_merge ([part_a] @ [part_b])) ''B1'' book_default) = Some (Fin 10)
   \<and> (\<forall>ops. snd (snd (dict_get (q2_merge ops [q2_part_a]) ''B1'' (Some (Fin 0), 0, None)))
         = Some (Fin 10))
   \<and> (\<forall>ops. snd (snd (dict_get (q2_merge ops ([q2_part_a] @ [q2_part_b])) ''B1''
         (Some (Fin 0), 0, None))) = Some (Fin 10))"
proof -
  let ?loc = "[(''B1'', \<lparr>b_sum = 10, b_cnt = 2, b_price = Some (Fin 10), b_title_counts = [(''T'', 2)]\<rparr>)]"
  note inst = price_capture_amended [where rs = price_rows and loc = ?loc and bid = "''B1''"
      and rs' = "[]" and loc' = ?loc and p = "Fin 10" and ps = "[part_a]" and ps' = "[part_b]"
      and qs = "[q2_part_a]" and qs' = "[q2_part_b]"]
  have h1: "q4_loop price_rows [] = Inr ?loc"
    by (simp add: price_rows_def q4_step_def dict_get_def book_default_def counter_add_def
        strip_def isspace_def)
  have h2: "''B1'' \<in> set (q2_keys price_rows)"
    by (simp add: q2_keys_def price_rows_def)
  have h3: "b_price (dict_get (q4_merge [part_a]) ''B1'' book_default) = Some (Fin 10)"
    by (simp add: q4_merge_def q4_merge_item_def q4_combine_def part_a_def dict_get_def
        book_default_def)
  have h4: "snd (snd (dict_get (q2_merge ops [q2_part_a]) ''B1'' (Some (Fin 0), 0, None)))
      = Some (Fin 10)" for ops
    by (simp add: q2_merge_def q2_merge_item_def q2_combine_def q2_part_a_def dict_get_def)
  have cnt: "cnt_per_book price_rows ''B1'' = 2" and lp: "last_price price_rows ''B1'' = Some (Fin 20)"
    by (simp_all add: cnt_per_book_def q2_scores_def price_rows_def last_price_def)
  from inst h1 have c1: "b_price (dict_get ?loc ''B1'' book_default) = first_price price_rows ''B1''"
    by blast
  have "b_price (dict_get ?loc ''B1'' book_default) = Some (Fin 10)"
    by (simp add: dict_get_def)
  with c1 have c1': "first_price price_rows ''B1'' = Some (Fin 10)" by simp
  from inst h2 cnt lp have c2: "map_of (q2_part_map ops price_rows) ''B1''
         = Some (sum_per_book ops price_rows ''B1'', 2, Some (Fin 20))" for ops
    by simp
  from inst h3 have c3:
    "b_price (dict_get (q4_merge ([part_a] @ [part_b])) ''B1'' book_default) = Some (Fin 10)"
    by blast
  from inst h4 have c4: "snd (snd (dict_get (q2_merge ops ([q2_part_a] @ [q2_part_b])) ''B1''
         (Some (Fin 0), 0, None))) = Some (Fin 10)" for ops
    by blast
  from h1 c1' h2 c2 h3 c3 h4 c4 show ?thesis by blast
qed

text \<open>
  The claim fails for the local aggregator of Q2: of two rows of book \<^verbatim>\<open>B1\<close> with the
  prices 10 and 20, in this order, it keeps 20, the price of the last row
  (\<^verbatim>\<open>drop_duplicates(subset=["BId"], keep="last")\<close>).
\<close>

theorem price_first_row_counterexample:
  "BId (price_rows ! 0) = Some ''B1'' \<and> RScore (price_rows ! 0) = Some (Fin 5)
   \<and> BPrice (price_rows ! 0) = Some (Fin 10)
   \<and> q2_keys price_rows = [''B1'']
   \<and> price_any price_rows ''B1'' = Some (Fin 20)"
  by (simp add: price_rows_def q2_keys_def price_any_def List.map_filter_def)

subsection \<open>Top-10 resolver\<close>

lemma q4_candidates_eligible:
  "q4_candidates books =
     map (\<lambda>(bid, b). (pick_title (b_title_counts b), the (b_price b)))
       (filter (\<lambda>(bid, b). eligible_q4 b) books)"
  by (induction books rule: q4_candidates.induct)
     (auto simp: eligible_q4_def split: option.splits)

lemma f64_neg_less: "f64_neg a < f64_neg b \<longleftrightarrow> b < a"
  by (cases a; cases b) (simp_all add: less_f64_def)

lemma f64_neg_eq: "f64_neg a = f64_neg b \<longleftrightarrow> a = b"
  by (cases a; cases b) simp_all

lemma f64_neg_le: "f64_neg a \<le> f64_neg b \<longleftrightarrow> b \<le> a"
  by (cases a; cases b) simp_all

lemma key_le_ranked:
  "(f64_neg (snd x), fst x) \<le> (f64_neg (snd y), fst y) \<longleftrightarrow> ranked_before x y"
  by (cases "snd x = snd y")
     (auto simp: ranked_before_def less_eq_prod_def f64_neg_less f64_neg_le)

lemma q4_sorted_props:
  "mset (q4_sorted cs) = mset cs" "sorted_wrt ranked_before (q4_sorted cs)"
proof -
  show "mset (q4_sorted cs) = mset cs" by (simp add: q4_sorted_def)
  have "sorted (map (\<lambda>x. (f64_neg (snd x), fst x)) (q4_sorted cs))"
    by (simp add: q4_sorted_def)
  then show "sorted_wrt ranked_before (q4_sorted cs)"
    unfolding sorted_map key_le_ranked .
qed

lemma keys_fold_dict_set:
  "map fst (fold (\<lambda>(k, v) d. dict_set k v d) ps d) =
     map fst d @ filter (\<lambda>k. k \<notin> set (map fst d)) (uniq (map fst ps))"
proof (induction ps arbitrary: d)
  case Nil
  show ?case by simp
next
  case (Cons a ps)
  obtain k v where a: "a = (k, v)" by (cases a)
  show ?case
    by (auto simp: a Cons.IH keys_dict_set intro!: filter_cong)
qed

lemma map_of_fold_dict_set:
  "map_of (fold (\<lambda>(k, v) d. dict_set k v d) ps d) = map_of d ++ map_of (rev ps)"
proof (induction ps arbitrary: d)
  case Nil
  show ?case by simp
next
  case (Cons a ps)
  obtain k v where a: "a = (k, v)" by (cases a)
  show ?case
    by (simp add: a Cons.IH map_of_dict_set map_add_def fun_eq_iff split: option.splits)
qed

lemma wf_fold_dict_set:
  "wf_dict d \<Longrightarrow> wf_dict (fold (\<lambda>(k, v) d. dict_set k v d) ps d)"
  by (induction ps arbitrary: d) (auto simp: wf_dict_set)

lemma dict_set_fresh: "k \<notin> fst ` set d \<Longrightarrow> dict_set k v d = d @ [(k, v)]"
  by (induction d) auto

lemma fold_dict_set_distinct:
  "distinct (map fst d @ map fst ps) \<Longrightarrow> fold (\<lambda>(k, v) d. dict_set k v d) ps d = d @ ps"
proof (induction ps arbitrary: d)
  case Nil
  show ?case by simp
next
  case (Cons a ps)
  obtain k v where a: "a = (k, v)" by (cases a)
  from Cons.prems have fresh: "k \<notin> fst ` set d" by (auto simp: a)
  from Cons.prems have "distinct (map fst (d @ [(k, v)]) @ map fst ps)" by (auto simp: a)
  from Cons.IH [OF this] show ?case by (simp add: a dict_set_fresh [OF fresh])
qed

lemma dict_of_pairs_distinct:
  "distinct (map fst ps) \<Longrightarrow> dict_of_pairs ps = ps"
  using fold_dict_set_distinct [of "[]" ps] by (simp add: dict_of_pairs_def)

lemma dict_of_pairs_keys: "map fst (dict_of_pairs ps) = uniq (map fst ps)"
  by (simp add: dict_of_pairs_def keys_fold_dict_set)

lemma dict_of_pairs_map_of: "map_of (dict_of_pairs ps) = map_of (rev ps)"
  by (simp add: dict_of_pairs_def map_of_fold_dict_set)

lemma dict_of_pairs_wf: "distinct (map fst (dict_of_pairs ps))"
  using wf_fold_dict_set [of "[]" ps] by (simp add: dict_of_pairs_def wf_dict_def)

lemma length_uniq_le: "length (uniq xs) \<le> length xs"
proof (induction xs)
  case Nil
  show ?case by simp
next
  case (Cons x xs)
  have "length (filter (\<lambda>y. y \<noteq> x) (uniq xs)) \<le> length (uniq xs)" by (rule length_filter_le)
  with Cons show ?case by (simp del: length_filter_le)
qed

lemma length_dict_of_pairs_le: "length (dict_of_pairs ps) \<le> length ps"
proof -
  have "length (dict_of_pairs ps) = length (map fst (dict_of_pairs ps))" by simp
  also have "\<dots> = length (uniq (map fst ps))" by (simp only: dict_of_pairs_keys)
  also have "\<dots> \<le> length (map fst ps)" by (rule length_uniq_le)
  finally show ?thesis by simp
qed

text \<open>
  Claim C8.  The candidates of the top-10 resolver are exactly the merged books with
  \<open>count > 0\<close>, \<open>sumScore < 4 * count\<close> and a captured price, each as its canonical title
  and its price; the sort is a permutation of the candidates ranked by price descending
  and then title ascending; the first 10 of them are taken; the final answer is the
  dictionary built from them in that order, its keys are their titles in that order
  (each title once), and it is that very list when their titles are distinct.  When no
  book is eligible the final answer is the empty mapping.
\<close>

theorem top_k_resolver:
  "q4_candidates books =
      map (\<lambda>(bid, b). (pick_title (b_title_counts b), the (b_price b)))
        (filter (\<lambda>(bid, b). eligible_q4 b) books)
   \<and> mset (q4_sorted cs) = mset cs
   \<and> sorted_wrt ranked_before (q4_sorted cs)
   \<and> top10 cs = take 10 (q4_sorted cs)
   \<and> q4_final books = dict_of_pairs (top10 (q4_candidates books))
   \<and> map fst (q4_final books) = uniq (map fst (top10 (q4_candidates books)))
   \<and> (distinct (map fst (top10 (q4_candidates books)))
        \<longrightarrow> q4_final books = top10 (q4_candidates books))
   \<and> ((\<forall>(bid, b) \<in> set books. \<not> eligible_q4 b) \<longrightarrow> q4_final books = [])"
proof -
  have none: "q4_final books = []" if "\<forall>(bid, b) \<in> set books. \<not> eligible_q4 b"
  proof -
    from that have "filter (\<lambda>(bid, b). eligible_q4 b) books = []"
      by (auto simp: filter_empty_conv)
    then show ?thesis
      by (simp add: q4_final_def q4_candidates_eligible top10_def q4_sorted_def dict_of_pairs_def)
  qed
  show ?thesis
    using q4_candidates_eligible [of books] q4_sorted_props [of cs] none
    by (simp add: top10_def q4_final_def dict_of_pairs_keys dict_of_pairs_distinct)
qed

theorem top_k_resolver_witness:
  "distinct (map fst (top10 (q4_candidates twelve_books)))
   \<and> length (filter (\<lambda>(bid, b). eligible_q4 b) twelve_books) = 12
   \<and> q4_final twelve_books =
       [(''G'', Fin 120), (''F'', Fin 110), (''L'', Fin 100), (''D'', Fin 90), (''C'', Fin 80),
        (''B'', Fin 70), (''A'', Fin 60), (''I'', Fin 50), (''J'', Fin 50), (''K'', Fin 30)]
   \<and> list_all (\<lambda>(bid, b). \<not> eligible_q4 b) average_four
   \<and> q4_final average_four = []"
proof -
  have t: "top10 (q4_candidates twelve_books) =
      [(''G'', Fin 120), (''F'', Fin 110), (''L'', Fin 100), (''D'', Fin 90), (''C'', Fin 80),
       (''B'', Fin 70), (''A'', Fin 60), (''I'', Fin 50), (''J'', Fin 50), (''K'', Fin 30)]"
    by (simp add: twelve_books_def mk_books_def top10_def q4_sorted_def pick_title_def
        top_candidates_def less_f64_def)
  then have d: "distinct (map fst (top10 (q4_candidates twelve_books)))"
    by simp
  have n: "length (filter (\<lambda>(bid, b). eligible_q4 b) twelve_books) = 12"
    by (simp add: twelve_books_def mk_books_def eligible_q4_def)
  have e: "\<forall>(bid, b) \<in> set average_four. \<not> eligible_q4 b"
    by (simp add: average_four_def mk_books_def eligible_q4_def)
  from top_k_resolver [where books = twelve_books] d
  have "q4_final twelve_books = top10 (q4_candidates twelve_books)" by blast
  moreover from top_k_resolver [where books = average_four] e
  have "q4_final average_four = []" by blast
  moreover from e have "list_all (\<lambda>(bid, b). \<not> eligible_q4 b) average_four"
    by (simp add: list_all_iff)
  ultimately show ?thesis using t d n by simp
qed

text \<open>
  Claim C10.  The final answer of the top-10 query is a dictionary keyed by canonical
  title: each title of the ten best candidates occurs once, at the place of its first
  occurrence, with the price of its last occurrence in sorted order; it has at most 10
  entries.  Of the ten eligible books of \<open>ten_books\<close>, with distinct ids, two share the
  title \<^verbatim>\<open>A\<close>, and the final answer has nine entries, \<^verbatim>\<open>A\<close> with the lower price 80.
\<close>

theorem title_collapse:
  "map_of (q4_final books) = map_of (rev (top10 (q4_candidates books)))
   \<and> map fst (q4_final books) = uniq (map fst (top10 (q4_candidates books)))
   \<and> distinct (map fst (q4_final books))
   \<and> length (q4_final books) \<le> 10
   \<and> distinct (map fst ten_books)
   \<and> length (filter (\<lambda>(bid, b). eligible_q4 b) ten_books) = 10
   \<and> top10 (q4_candidates ten_books) =
       [(''A'', Fin 100), (''B'', Fin 90), (''A'', Fin 80), (''C'', Fin 70), (''D'', Fin 60),
        (''E'', Fin 50), (''F'', Fin 40), (''G'', Fin 30), (''H'', Fin 20), (''I'', Fin 10)]
   \<and> q4_final ten_books =
       [(''A'', Fin 80), (''B'', Fin 90), (''C'', Fin 70), (''D'', Fin 60), (''E'', Fin 50),
        (''F'', Fin 40), (''G'', Fin 30), (''H'', Fin 20), (''I'', Fin 10)]"
proof -
  have len: "length (q4_final books) \<le> 10"
  proof -
    have "length (q4_final books) \<le> length (top10 (q4_candidates books))"
      unfolding q4_final_def by (rule length_dict_of_pairs_le)
    also have "\<dots> \<le> 10" by (simp add: top10_def)
    finally show ?thesis .
  qed
  have t: "top10 (q4_candidates ten_books) =
       [(''A'', Fin 100), (''B'', Fin 90), (''A'', Fin 80), (''C'', Fin 70), (''D'', Fin 60),
        (''E'', Fin 50), (''F'', Fin 40), (''G'', Fin 30), (''H'', Fin 20), (''I'', Fin 10)]"
    by (simp add: ten_books_def mk_books_def top10_def q4_sorted_def pick_title_def
        top_candidates_def less_f64_def)
  have f: "q4_final ten_books =
       [(''A'', Fin 80), (''B'', Fin 90), (''C'', Fin 70), (''D'', Fin 60), (''E'', Fin 50),
        (''F'', Fin 40), (''G'', Fin 30), (''H'', Fin 20), (''I'', Fin 10)]"
    by (simp add: q4_final_def t dict_of_pairs_def)
  have d: "distinct (map fst ten_books)"
    and n: "length (filter (\<lambda>(bid, b). eligible_q4 b) ten_books) = 10"
    by (simp_all add: ten_books_def mk_books_def eligible_q4_def)
  have m: "map_of (q4_final books) = map_of (rev (top10 (q4_candidates books)))"
    unfolding q4_final_def by (rule dict_of_pairs_map_of)
  have k: "map fst (q4_final books) = uniq (map fst (top10 (q4_candidates books)))"
    unfolding q4_final_def by (rule dict_of_pairs_keys)
  have w: "distinct (map fst (q4_final books))"
    unfolding q4_final_def by (rule dict_of_pairs_wf)
  from m k w len d n t f show ?thesis by blast
qed

theorem title_collapse_witness:
  "map_of (q4_final ten_books) ''A'' = Some (Fin 80)
   \<and> map fst (q4_final ten_books) = [''A'', ''B'', ''C'', ''D'', ''E'', ''F'', ''G'', ''H'', ''I'']
   \<and> length (q4_final ten_books) = 9"
proof -
  from title_collapse [where books = ten_books]
  have m: "map_of (q4_final ten_books) = map_of (rev (top10 (q4_candidates ten_books)))"
    and k: "map fst (q4_final ten_books) = uniq (map fst (top10 (q4_candidates ten_books)))"
    and t: "top10 (q4_candidates ten_books) =
       [(''A'', Fin 100), (''B'', Fin 90), (''A'', Fin 80), (''C'', Fin 70), (''D'', Fin 60),
        (''E'', Fin 50), (''F'', Fin 40), (''G'', Fin 30), (''H'', Fin 20), (''I'', Fin 10)]"
    by blast+
  have "map_of (q4_final ten_books) ''A'' = Some (Fin 80)"
    unfolding m t by simp
  moreover have keys: "map fst (q4_final ten_books) = [''A'', ''B'', ''C'', ''D'', ''E'', ''F'', ''G'', ''H'', ''I'']"
    unfolding k t by simp
  moreover have "length (q4_final ten_books) = 9"
    using arg_cong [OF keys, of length] by simp
  ultimately show ?thesis by blast
qed

subsection \<open>Worker errors\<close>









subsection \<open>Merge engine\<close>

lemma map_of_counter_add: "map_of (counter_add s n c) = (map_of c)(s \<mapsto> dict_get c s 0 + n)"
  by (simp add: counter_add_def map_of_dict_set)

lemma dict_get_counter_add:
  "dict_get (counter_add s n c) m 0 = (if m = s then dict_get c s 0 + n else dict_get c m 0)"
  by (simp add: dict_get_def map_of_counter_add)

lemma csum_Cons: "csum ((s, v) # c) n = (if s = n then v else 0) + csum c n"
  by (simp add: csum_def)

lemma csum_Nil [simp]: "csum [] n = 0"
  by (simp add: csum_def)

lemma csum_notin: "n \<notin> fst ` set c \<Longrightarrow> csum c n = 0"
  by (induction c) (auto simp: csum_Cons)

lemma fold_counter_add:
  "map_of (fold (\<lambda>(s, n) c'. counter_add s n c') other c) n =
     (if n \<in> fst ` set other then Some (dict_get c n 0 + csum other n) else map_of c n)"
proof (induction other arbitrary: c)
  case Nil
  show ?case by simp
next
  case (Cons a other)
  obtain s v where a: "a = (s, v)" by (cases a)
  show ?case
    by (auto simp: a Cons.IH csum_Cons dict_get_counter_add map_of_counter_add csum_notin)
qed

lemma map_of_counter_update:
  "map_of (counter_update c other) n =
     (if n \<in> fst ` set other then Some (dict_get c n 0 + csum other n) else map_of c n)"
  by (simp add: counter_update_def fold_counter_add)

lemma wf_counter_add: "wf_dict c \<Longrightarrow> wf_dict (counter_add s n c)"
  by (simp add: counter_add_def wf_dict_set)

lemma wf_counter_update: "wf_dict c \<Longrightarrow> wf_dict (counter_update c other)"
  unfolding counter_update_def
  by (induction other arbitrary: c) (auto simp: wf_counter_add)

lemma csum_wf: "wf_dict c \<Longrightarrow> csum c n = dict_get c n 0"
proof (induction c)
  case Nil
  show ?case by simp
next
  case (Cons a c)
  obtain s v where a: "a = (s, v)" by (cases a)
  from Cons.prems have wf: "wf_dict c" and fresh: "s \<notin> fst ` set c"
    by (auto simp: wf_dict_def a)
  show ?case
    using Cons.IH [OF wf] csum_notin [OF fresh]
    by (auto simp: a csum_Cons dict_get_def)
qed

lemma fold_merge_key:
  "map_of (fold (\<lambda>(k, info) g. dict_set k (comb (dict_get g k dflt) info) g) items g) k =
     (if entries_of k items = [] then map_of g k
      else Some (fold (\<lambda>info u. comb u info) (entries_of k items) (dict_get g k dflt)))"
proof (induction items arbitrary: g)
  case Nil
  show ?case by (simp add: entries_of_def)
next
  case (Cons a items)
  obtain k' info where a: "a = (k', info)" by (cases a)
  show ?case
    by (simp add: a Cons.IH entries_of_def map_of_dict_set dict_get_dict_set)
qed

lemma q3_merge_item_alt:
  "q3_merge_item = (\<lambda>(k, info) g. dict_set k (q3_combine (dict_get g k user_default) info) g)"
  by (simp add: fun_eq_iff q3_merge_item_def)

lemma q3_merge_concat: "q3_merge ps = fold q3_merge_item (concat ps) []"
  by (simp add: q3_merge_def fold_fold_concat)

lemma map_of_q3_merge:
  "map_of (q3_merge ps) k =
     (if entries_of k (concat ps) = [] then None
      else Some (fold (\<lambda>info u. q3_combine u info) (entries_of k (concat ps)) user_default))"
  unfolding q3_merge_concat q3_merge_item_alt fold_merge_key by simp

lemma label_totals_Nil [simp]: "label_totals [] = Map.empty"
  by (simp add: label_totals_def fun_eq_iff)

lemma sum_csum_zero:
  "\<forall>c \<in> set cs. n \<notin> fst ` set c \<Longrightarrow> sum_list (map (\<lambda>c. csum c n) cs) = 0"
  by (induction cs) (simp_all add: csum_notin)

text \<open>The frequency table after updating with a list of tables.\<close>

lemma fold_counter_update:
  "map_of (fold (\<lambda>c acc. counter_update acc c) cs c0) n =
     (case label_totals cs n of
        None \<Rightarrow> map_of c0 n
      | Some t \<Rightarrow> Some (dict_get c0 n 0 + t))"
proof (induction cs arbitrary: c0)
  case Nil
  show ?case by simp
next
  case (Cons c cs)
  have get: "dict_get (counter_update c0 c) n 0 = dict_get c0 n 0 + csum c n"
    by (simp add: dict_get_def map_of_counter_update csum_notin split: option.splits)
  show ?case
    unfolding fold_simps Cons.IH get
    by (auto simp: label_totals_def map_of_counter_update csum_notin sum_csum_zero dict_get_def
        split: option.splits)
qed

lemma fold_q3_combine:
  defines "F \<equiv> \<lambda>es u0. fold (\<lambda>info u. q3_combine u info) es u0"
  shows "u_sum (F es u0) = u_sum u0 + sum_list (map u_sum es)"
    and "u_cnt (F es u0) = u_cnt u0 + sum_list (map u_cnt es)"
    and "u_books (F es u0) = u_books u0 \<union> \<Union> (set (map u_books es))"
    and "u_name_counts (F es u0) = fold (\<lambda>c acc. counter_update acc c) (map u_name_counts es) (u_name_counts u0)"
  unfolding F_def
  by (induction es arbitrary: u0; auto simp: q3_combine_def fold_map comp_def)+

lemma view_q3_merge: "view_q3 (q3_merge ps) = spec_merge_q3 ps"
proof
  fix k
  let ?es = "entries_of k (concat ps)"
  show "view_q3 (q3_merge ps) k = spec_merge_q3 ps k"
  proof (cases "?es = []")
    case True
    then show ?thesis by (simp add: view_q3_def map_of_q3_merge spec_merge_q3_def)
  next
    case False
    have "map_of (u_name_counts (fold (\<lambda>info u. q3_combine u info) ?es user_default))
        = label_totals (map u_name_counts ?es)"
      by (rule ext) (simp add: fold_q3_combine(4) fold_counter_update user_default_def split: option.splits)
    with False show ?thesis
      by (simp add: view_q3_def map_of_q3_merge spec_merge_q3_def view_user_def fold_q3_combine
          user_default_def Let_def)
  qed
qed

lemma mset_concat_perm:
  assumes "mset ps = mset qs"
  shows "mset (concat ps) = mset (concat qs)"
proof -
  have "mset (concat xss) = sum_mset (image_mset mset (mset xss))" for xss :: "'a list list"
    by (induction xss) simp_all
  with assms show ?thesis by simp
qed

lemma mset_entries_perm:
  assumes "mset ps = mset qs"
  shows "mset (entries_of k (concat ps)) = mset (entries_of k (concat qs))"
proof -
  have "mset (entries_of k xs) = image_mset snd (filter_mset (\<lambda>(k', e). k' = k) (mset xs))"
    for xs :: "(string \<times> 'a) list"
    by (simp add: entries_of_def)
  with mset_concat_perm [OF assms] show ?thesis by simp
qed

lemma sum_list_mset_cong:
  fixes f :: "'a \<Rightarrow> int"
  assumes "mset xs = mset ys"
  shows "sum_list (map f xs) = sum_list (map f ys)"
proof -
  have "sum_list (map f xs) = sum_mset (image_mset f (mset xs))" for xs
    by (induction xs) simp_all
  with assms show ?thesis by simp
qed

lemma label_totals_mset_cong:
  assumes "mset xs = mset ys"
  shows "label_totals (map f xs) = label_totals (map f ys)"
proof
  fix n
  from assms have "set xs = set ys" by (rule mset_eq_setD)
  moreover from assms have "sum_list (map (\<lambda>x. csum (f x) n) xs) = sum_list (map (\<lambda>x. csum (f x) n) ys)"
    by (rule sum_list_mset_cong)
  ultimately show "label_totals (map f xs) n = label_totals (map f ys) n"
    by (simp add: label_totals_def comp_def)
qed

lemma spec_merge_q3_perm:
  assumes "mset ps = mset qs"
  shows "spec_merge_q3 ps = spec_merge_q3 qs"
proof
  fix k
  let ?a = "entries_of k (concat ps)" and ?b = "entries_of k (concat qs)"
  from assms have m: "mset ?a = mset ?b" by (rule mset_entries_perm)
  then have "set ?a = set ?b" by (rule mset_eq_setD)
  moreover from m have "?a = [] \<longleftrightarrow> ?b = []" by (metis mset_zero_iff)
  ultimately show "spec_merge_q3 ps k = spec_merge_q3 qs k"
    using sum_list_mset_cong [OF m, of u_sum] sum_list_mset_cong [OF m, of u_cnt]
      label_totals_mset_cong [OF m, of u_name_counts]
    by (simp add: spec_merge_q3_def Let_def)
qed

lemma entries_of_fresh: "k \<notin> fst ` set d \<Longrightarrow> entries_of k d = []"
  by (induction d) (auto simp: entries_of_def)

lemma entries_of_wf:
  "wf_dict d \<Longrightarrow> entries_of k d = (case map_of d k of None \<Rightarrow> [] | Some v \<Rightarrow> [v])"
proof (induction d)
  case Nil
  show ?case by (simp add: entries_of_def)
next
  case (Cons a d)
  obtain k' v where a: "a = (k', v)" by (cases a)
  from Cons.prems have wf: "wf_dict d" and fresh: "k' \<notin> fst ` set d"
    by (auto simp: wf_dict_def a)
  show ?case
  proof (cases "k' = k")
    case True
    with fresh entries_of_fresh [of k d] show ?thesis
      by (simp add: a entries_of_def)
  next
    case False
    with Cons.IH [OF wf] show ?thesis
      by (simp add: a entries_of_def)
  qed
qed

lemma entries_of_append: "entries_of k (xs @ ys) = entries_of k xs @ entries_of k ys"
  by (simp add: entries_of_def)

lemma wf_fold_merge:
  "wf_dict g \<Longrightarrow> wf_dict (fold (\<lambda>(k, info) g. dict_set k (comb (dict_get g k dflt) info) g) items g)"
  by (induction items arbitrary: g) (auto simp: wf_dict_set)

lemma wf_q3_merge: "wf_dict (q3_merge ps)"
  unfolding q3_merge_concat q3_merge_item_alt
  by (rule wf_fold_merge) (simp add: wf_dict_def)

lemma wf_fold_counter_update:
  "wf_dict c0 \<Longrightarrow> wf_dict (fold (\<lambda>c acc. counter_update acc c) cs c0)"
  by (induction cs arbitrary: c0) (simp_all add: wf_counter_update)

lemma label_totals_append:
  "label_totals (xs @ ys) n =
     (case label_totals xs n of
        None \<Rightarrow> label_totals ys n
      | Some a \<Rightarrow> (case label_totals ys n of None \<Rightarrow> Some a | Some b \<Rightarrow> Some (a + b)))"
  by (auto simp: label_totals_def sum_csum_zero)

lemma label_totals_single: "wf_dict c \<Longrightarrow> label_totals [c] = map_of c"
proof
  fix n
  assume wf: "wf_dict c"
  show "label_totals [c] n = map_of c n"
  proof (cases "map_of c n")
    case None
    then have "n \<notin> fst ` set c" by (simp add: map_of_eq_None_iff)
    with None show ?thesis by (simp add: label_totals_def)
  next
    case (Some v)
    then have "n \<in> fst ` set c" by (metis map_of_eq_None_iff option.distinct(1))
    with Some show ?thesis by (simp add: label_totals_def csum_wf [OF wf] dict_get_def)
  qed
qed

text \<open>The entries that a merged map holds for a key, seen through the view.\<close>

lemma names_fold_q3:
  "map_of (u_name_counts (fold (\<lambda>info u. q3_combine u info) es user_default))
     = label_totals (map u_name_counts es)"
  by (rule ext) (simp add: fold_q3_combine(4) fold_counter_update user_default_def split: option.splits)

lemma wf_names_fold_q3:
  "wf_dict (u_name_counts (fold (\<lambda>info u. q3_combine u info) es user_default))"
  unfolding fold_q3_combine(4)
  by (rule wf_fold_counter_update) (simp add: user_default_def wf_dict_def)

lemma spec_merge_q3_regroup:
  "spec_merge_q3 [q3_merge ga, q3_merge gb] = spec_merge_q3 (ga @ gb)"
proof
  fix k
  let ?F = "\<lambda>es. fold (\<lambda>info u. q3_combine u info) es user_default"
  let ?ea = "entries_of k (concat ga)" and ?eb = "entries_of k (concat gb)"
  have ent: "entries_of k (q3_merge g) = (if entries_of k (concat g) = [] then [] else [?F (entries_of k (concat g))])" for g
    by (simp add: entries_of_wf [OF wf_q3_merge] map_of_q3_merge)
  have lt: "label_totals [u_name_counts (?F es)] = label_totals (map u_name_counts es)" for es
    by (simp add: label_totals_single [OF wf_names_fold_q3] names_fold_q3)
  have lab: "label_totals (map u_name_counts (entries_of k (q3_merge ga) @ entries_of k (q3_merge gb)))
      = label_totals (map u_name_counts (?ea @ ?eb))"
  proof
    fix n
    have one: "label_totals (map u_name_counts (entries_of k (q3_merge g))) n
        = label_totals (map u_name_counts (entries_of k (concat g))) n" for g
      using lt [of "entries_of k (concat g)"] by (simp add: ent)
    show "label_totals (map u_name_counts (entries_of k (q3_merge ga) @ entries_of k (q3_merge gb))) n
      = label_totals (map u_name_counts (?ea @ ?eb)) n"
      by (simp only: map_append label_totals_append one)
  qed
  have sums: "sum_list (map u_sum (entries_of k (q3_merge g))) = sum_list (map u_sum (entries_of k (concat g)))"
    "sum_list (map u_cnt (entries_of k (q3_merge g))) = sum_list (map u_cnt (entries_of k (concat g)))"
    "\<Union> (set (map u_books (entries_of k (q3_merge g)))) = \<Union> (set (map u_books (entries_of k (concat g))))" for g
    by (simp_all add: ent fold_q3_combine user_default_def)
  have emp: "entries_of k (q3_merge g) = [] \<longleftrightarrow> entries_of k (concat g) = []" for g
    by (simp add: ent)
  show "spec_merge_q3 [q3_merge ga, q3_merge gb] k = spec_merge_q3 (ga @ gb) k"
    using lab sums [of ga] sums [of gb] emp [of ga] emp [of gb]
    by (simp add: spec_merge_q3_def Let_def entries_of_append)
qed

lemma book_default_simps [simp]:
  "b_sum book_default = 0" "b_cnt book_default = 0" "b_price book_default = None"
  "b_title_counts book_default = []"
  by (simp_all add: book_default_def)

lemma q4_merge_item_alt:
  "q4_merge_item = (\<lambda>(k, info) g. dict_set k (q4_combine (dict_get g k book_default) info) g)"
  by (simp add: fun_eq_iff q4_merge_item_def)

lemma map_of_q4_merge:
  "map_of (q4_merge ps) k =
     (if entries_of k (concat ps) = [] then None
      else Some (fold (\<lambda>info b. q4_combine b info) (entries_of k (concat ps)) book_default))"
  unfolding q4_merge_concat q4_merge_item_alt fold_merge_key by simp

lemma wf_q4_merge: "wf_dict (q4_merge ps)"
  unfolding q4_merge_concat q4_merge_item_alt
  by (rule wf_fold_merge) (simp add: wf_dict_def)

lemma fold_q4_combine:
  defines "F \<equiv> \<lambda>es b0. fold (\<lambda>info b. q4_combine b info) es b0"
  shows "b_sum (F es b0) = b_sum b0 + sum_list (map b_sum es)"
    and "b_cnt (F es b0) = b_cnt b0 + sum_list (map b_cnt es)"
    and "b_title_counts (F es b0) = fold (\<lambda>c acc. counter_update acc c) (map b_title_counts es) (b_title_counts b0)"
  unfolding F_def
  by (induction es arbitrary: b0; simp add: q4_combine_def fold_map comp_def)+

lemma titles_fold_q4:
  "map_of (b_title_counts (fold (\<lambda>info b. q4_combine b info) es book_default))
     = label_totals (map b_title_counts es)"
  by (rule ext) (simp add: fold_q4_combine(3) fold_counter_update split: option.splits)

lemma wf_titles_fold_q4:
  "wf_dict (b_title_counts (fold (\<lambda>info b. q4_combine b info) es book_default))"
  unfolding fold_q4_combine(3)
  by (rule wf_fold_counter_update) (simp add: wf_dict_def)

lemma price_of_merged_q4:
  assumes "map_of (q4_merge ps) k = Some b"
  shows "b_price b = first_writer b_price ps k"
  using q4_merge_price [of ps k] assms by (simp add: dict_get_def)

lemma view_q4_merge: "view_q4 (q4_merge ps) = spec_merge_q4 ps"
proof
  fix k
  let ?es = "entries_of k (concat ps)"
  show "view_q4 (q4_merge ps) k = spec_merge_q4 ps k"
  proof (cases "?es = []")
    case True
    then show ?thesis by (simp add: view_q4_def map_of_q4_merge spec_merge_q4_def)
  next
    case False
    then have m: "map_of (q4_merge ps) k = Some (fold (\<lambda>info b. q4_combine b info) ?es book_default)"
      by (simp add: map_of_q4_merge)
    from False show ?thesis
      by (simp add: view_q4_def m spec_merge_q4_def view_book_def fold_q4_combine(1,2)
          price_of_merged_q4 [OF m] titles_fold_q4 Let_def)
  qed
qed

lemma first_writer_append:
  "first_writer price (xs @ ys) k =
     (case first_writer price xs k of Some p \<Rightarrow> Some p | None \<Rightarrow> first_writer price ys k)"
proof -
  have "find P (as @ bs) = (case find P as of None \<Rightarrow> find P bs | Some x \<Rightarrow> Some x)"
    for P :: "(string \<times> 'a) \<Rightarrow> bool" and as bs
    by (induction as) simp_all
  then show ?thesis
    by (auto simp: first_writer_def split: option.splits dest: find_Some_iff [THEN iffD1])
qed

lemma first_writer_single_wf:
  assumes "wf_dict d"
  shows "first_writer price [d] k = (case map_of d k of None \<Rightarrow> None | Some e \<Rightarrow> price e)"
  using assms
proof (induction d)
  case Nil
  show ?case by (simp add: first_writer_def)
next
  case (Cons a d)
  obtain k' v where a: "a = (k', v)" by (cases a)
  from Cons.prems have wf: "wf_dict d" and fresh: "k' \<notin> fst ` set d"
    by (auto simp: wf_dict_def a)
  show ?case
  proof (cases "k' = k")
    case True
    with fresh have "find (\<lambda>(k'', e). k'' = k \<and> price e \<noteq> None) d = None"
      by (force simp: find_None_iff)
    with True show ?thesis
      by (auto simp: a first_writer_def split: option.splits)
  next
    case False
    with Cons.IH [OF wf] show ?thesis
      by (simp add: a first_writer_def)
  qed
qed

lemma first_writer_merged_q4:
  "first_writer b_price [q4_merge g] k = first_writer b_price g k"
  using q4_merge_price [of g k]
  by (simp add: first_writer_single_wf [OF wf_q4_merge] dict_get_def split: option.splits)

lemma spec_merge_q4_regroup:
  "spec_merge_q4 [q4_merge ga, q4_merge gb] = spec_merge_q4 (ga @ gb)"
proof
  fix k
  let ?F = "\<lambda>es. fold (\<lambda>info b. q4_combine b info) es book_default"
  let ?ea = "entries_of k (concat ga)" and ?eb = "entries_of k (concat gb)"
  have ent: "entries_of k (q4_merge g) = (if entries_of k (concat g) = [] then [] else [?F (entries_of k (concat g))])" for g
    by (simp add: entries_of_wf [OF wf_q4_merge] map_of_q4_merge)
  have lt: "label_totals [b_title_counts (?F es)] = label_totals (map b_title_counts es)" for es
    by (simp add: label_totals_single [OF wf_titles_fold_q4] titles_fold_q4)
  have lab: "label_totals (map b_title_counts (entries_of k (q4_merge ga) @ entries_of k (q4_merge gb)))
      = label_totals (map b_title_counts (?ea @ ?eb))"
  proof
    fix n
    have one: "label_totals (map b_title_counts (entries_of k (q4_merge g))) n
        = label_totals (map b_title_counts (entries_of k (concat g))) n" for g
      using lt [of "entries_of k (concat g)"] by (simp add: ent)
    show "label_totals (map b_title_counts (entries_of k (q4_merge ga) @ entries_of k (q4_merge gb))) n
      = label_totals (map b_title_counts (?ea @ ?eb)) n"
      by (simp only: map_append label_totals_append one)
  qed
  have sums: "sum_list (map b_sum (entries_of k (q4_merge g))) = sum_list (map b_sum (entries_of k (concat g)))"
    "sum_list (map b_cnt (entries_of k (q4_merge g))) = sum_list (map b_cnt (entries_of k (concat g)))" for g
    by (simp_all add: ent fold_q4_combine(1,2))
  have emp: "entries_of k (q4_merge g) = [] \<longleftrightarrow> entries_of k (concat g) = []" for g
    by (simp add: ent)
  have "first_writer b_price ([q4_merge ga] @ [q4_merge gb]) k = first_writer b_price (ga @ gb) k"
    by (simp only: first_writer_append first_writer_merged_q4)
  then have price: "first_writer b_price [q4_merge ga, q4_merge gb] k = first_writer b_price (ga @ gb) k"
    by simp
  show "spec_merge_q4 [q4_merge ga, q4_merge gb] k = spec_merge_q4 (ga @ gb) k"
    using lab sums [of ga] sums [of gb] emp [of ga] emp [of gb] price
    by (simp add: spec_merge_q4_def Let_def entries_of_append)
qed

lemma prices_of_perm:
  assumes "mset ps = mset qs"
  shows "prices_of price ps k = prices_of price qs k"
  using mset_eq_setD [OF mset_entries_perm [OF assms, of k]]
  by (simp add: prices_of_def)

lemma find_SomeD: "find P xs = Some x \<Longrightarrow> x \<in> set xs \<and> P x"
  by (induction xs) (auto split: if_splits)

lemma first_writer_mem:
  assumes "first_writer price ps k = Some p"
  shows "p \<in> prices_of price ps k"
proof -
  from assms obtain k' e where f: "find (\<lambda>(k', e). k' = k \<and> price e \<noteq> None) (concat ps) = Some (k', e)"
    and pe: "price e = Some p"
    by (auto simp: first_writer_def split: option.splits)
  from find_SomeD [OF f] have "(k', e) \<in> set (concat ps)" and "k' = k"
    by auto
  then have "e \<in> set (entries_of k (concat ps))"
    by (force simp: entries_of_def)
  with pe show ?thesis by (force simp: prices_of_def)
qed

lemma first_writer_found:
  assumes "p \<in> prices_of price ps k"
  shows "first_writer price ps k \<noteq> None"
proof -
  from assms obtain e where "e \<in> set (entries_of k (concat ps))" and pe: "price e = Some p"
    by (auto simp: prices_of_def)
  then have "(k, e) \<in> set (concat ps)" by (auto simp: entries_of_def)
  with pe have "\<exists>x. x \<in> set (concat ps) \<and> (case x of (k', e) \<Rightarrow> k' = k \<and> price e \<noteq> None)"
    by (intro exI [where x = "(k, e)"]) simp
  then have "find (\<lambda>(k', e). k' = k \<and> price e \<noteq> None) (concat ps) \<noteq> None"
    unfolding find_None_iff by blast
  then obtain k' e' where f: "find (\<lambda>(k', e). k' = k \<and> price e \<noteq> None) (concat ps) = Some (k', e')"
    by auto
  from find_SomeD [OF f] have "price e' \<noteq> None" by auto
  with f show ?thesis by (simp add: first_writer_def)
qed

lemma first_writer_perm:
  assumes "mset ps = mset qs"
    and "\<forall>p \<in> prices_of price ps k. \<forall>q \<in> prices_of price ps k. p = q"
  shows "first_writer price ps k = first_writer price qs k"
proof (cases "first_writer price ps k")
  case None
  with first_writer_found [of _ price ps k] have "prices_of price ps k = {}" by auto
  then have "prices_of price qs k = {}" by (simp add: prices_of_perm [OF assms(1)])
  with first_writer_mem [of price qs k] have "first_writer price qs k = None"
    by (cases "first_writer price qs k") auto
  with None show ?thesis by simp
next
  case (Some p)
  then have p: "p \<in> prices_of price ps k" by (rule first_writer_mem)
  then have "first_writer price qs k \<noteq> None"
    using first_writer_found [of p price qs k] by (simp add: prices_of_perm [OF assms(1)])
  then obtain q where q: "first_writer price qs k = Some q" by auto
  then have "q \<in> prices_of price ps k"
    using first_writer_mem [of price qs k q] by (simp add: prices_of_perm [OF assms(1)])
  with assms(2) p have "p = q" by blast
  with Some q show ?thesis by simp
qed

lemma spec_merge_q4_perm:
  assumes "mset ps = mset qs"
  shows "map_option (\<lambda>(s, c, p, t). (s, c, t)) (spec_merge_q4 ps k)
       = map_option (\<lambda>(s, c, p, t). (s, c, t)) (spec_merge_q4 qs k)"
    and "\<forall>p \<in> prices_of b_price ps k. \<forall>q \<in> prices_of b_price ps k. p = q
       \<Longrightarrow> spec_merge_q4 ps k = spec_merge_q4 qs k"
proof -
  let ?a = "entries_of k (concat ps)" and ?b = "entries_of k (concat qs)"
  from assms have m: "mset ?a = mset ?b" by (rule mset_entries_perm)
  from m have e: "?a = [] \<longleftrightarrow> ?b = []" by (metis mset_zero_iff)
  note facts = sum_list_mset_cong [OF m, of b_sum] sum_list_mset_cong [OF m, of b_cnt]
      label_totals_mset_cong [OF m, of b_title_counts]
  from e facts show "map_option (\<lambda>(s, c, p, t). (s, c, t)) (spec_merge_q4 ps k)
       = map_option (\<lambda>(s, c, p, t). (s, c, t)) (spec_merge_q4 qs k)"
    by (simp add: spec_merge_q4_def Let_def)
  assume "\<forall>p \<in> prices_of b_price ps k. \<forall>q \<in> prices_of b_price ps k. p = q"
  from first_writer_perm [OF assms this] e facts
  show "spec_merge_q4 ps k = spec_merge_q4 qs k"
    by (simp add: spec_merge_q4_def Let_def)
qed

lemma q2_merge_item_alt:
  "q2_merge_item ops = (\<lambda>(k, e) g. dict_set k (q2_combine ops (dict_get g k (Some (Fin 0), 0, None)) e) g)"
  by (simp add: fun_eq_iff q2_merge_item_def)

lemma map_of_q2_merge:
  "map_of (q2_merge ops ps) k =
     (if entries_of k (concat ps) = [] then None
      else Some (fold (\<lambda>e g. q2_combine ops g e) (entries_of k (concat ps)) (Some (Fin 0), 0, None)))"
  unfolding q2_merge_concat q2_merge_item_alt fold_merge_key by simp

lemma fold_q2_combine:
  "fst (fold (\<lambda>e g. q2_combine ops g e) es g0) = fold (\<lambda>e acc. fadd ops acc (fst e)) es (fst g0)"
  "fst (snd (fold (\<lambda>e g. q2_combine ops g e) es g0)) = fst (snd g0) + sum_list (map (\<lambda>e. fst (snd e)) es)"
  by (induction es arbitrary: g0; simp add: q2_combine_def split: prod.splits)+

lemma q2_merge_components:
  "map_of (q2_merge ops ps) k =
     (let es = entries_of k (concat ps)
      in if es = [] then None
         else Some (fold (\<lambda>e acc. fadd ops acc (fst e)) es (Some (Fin 0)),
                    sum_list (map (\<lambda>e. fst (snd e)) es),
                    first_writer (\<lambda>e. snd (snd e)) ps k))"
proof (cases "entries_of k (concat ps) = []")
  case True
  then show ?thesis by (simp add: map_of_q2_merge)
next
  case False
  let ?g = "fold (\<lambda>e g. q2_combine ops g e) (entries_of k (concat ps)) (Some (Fin 0), 0, None)"
  from False have m: "map_of (q2_merge ops ps) k = Some ?g" by (simp add: map_of_q2_merge)
  with q2_merge_price [of ops ps k] have "snd (snd ?g) = first_writer (\<lambda>e. snd (snd e)) ps k"
    by (simp add: dict_get_def)
  with False m show ?thesis
    using fold_q2_combine [of ops "entries_of k (concat ps)" "(Some (Fin 0), 0, None)"]
    by (simp add: Let_def prod_eq_iff)
qed

text \<open>
  Claim C2, as the code has it.  The merged map of Q3 holds, per user id, the sum of the
  sums, the sum of the counts, the union of the book sets and the key-wise sum of the
  name frequencies of all partial entries; it is the same for every reordering of the
  list of partial maps and for every split of the list into two groups that are merged
  separately and then merged.  The merged map of Q4 holds the sums, the counts, the
  key-wise sum of the title frequencies and the price of the first entry, in fold
  order, that carries one; it is the same when a list is split into a first and a
  second part that are merged separately and then merged in that order; under a
  reordering the sums, counts and frequencies are the same, and the price is the same
  when the partial maps agree on the price of every id.  The merged map of Q2 holds the
  float sum accumulated in fold order, the sum of the counts, which no reordering
  changes, and the first price in fold order.
\<close>

theorem merge_order_amended:
  "view_q3 (q3_merge ps) = spec_merge_q3 ps
   \<and> (mset ps = mset qs \<longrightarrow> view_q3 (q3_merge ps) = view_q3 (q3_merge qs))
   \<and> (mset ps = mset ga + mset gb
        \<longrightarrow> view_q3 (q3_merge [q3_merge ga, q3_merge gb]) = view_q3 (q3_merge ps))
   \<and> view_q4 (q4_merge bs) = spec_merge_q4 bs
   \<and> view_q4 (q4_merge [q4_merge ha, q4_merge hb]) = view_q4 (q4_merge (ha @ hb))
   \<and> (mset bs = mset cs
        \<longrightarrow> map_option unpriced (view_q4 (q4_merge bs) k)
            = map_option unpriced (view_q4 (q4_merge cs) k))
   \<and> (mset bs = mset cs \<and> consistent_prices b_price bs
        \<longrightarrow> view_q4 (q4_merge bs) = view_q4 (q4_merge cs))
   \<and> (mset bs = mset ha + mset hb \<and> consistent_prices b_price bs
        \<longrightarrow> view_q4 (q4_merge [q4_merge ha, q4_merge hb]) = view_q4 (q4_merge bs))
   \<and> map_of (q2_merge ops ms) k =
        (let es = entries_of k (concat ms)
         in if es = [] then None
            else Some (fold (\<lambda>e acc. fadd ops acc (fst e)) es (Some (Fin 0)),
                       sum_list (map (\<lambda>e. fst (snd e)) es),
                       first_writer (\<lambda>e. snd (snd e)) ms k))
   \<and> (mset ms = mset ns
        \<longrightarrow> map_option (\<lambda>e. fst (snd e)) (map_of (q2_merge ops ms) k)
            = map_option (\<lambda>e. fst (snd e)) (map_of (q2_merge ops ns) k))"
proof -
  have a1: "view_q3 (q3_merge ps) = spec_merge_q3 ps" by (rule view_q3_merge)
  have a2: "mset ps = mset qs \<longrightarrow> view_q3 (q3_merge ps) = view_q3 (q3_merge qs)"
  proof
    assume "mset ps = mset qs"
    then have "spec_merge_q3 ps = spec_merge_q3 qs" by (rule spec_merge_q3_perm)
    then show "view_q3 (q3_merge ps) = view_q3 (q3_merge qs)"
      by (simp only: view_q3_merge)
  qed
  have a3: "mset ps = mset ga + mset gb
        \<longrightarrow> view_q3 (q3_merge [q3_merge ga, q3_merge gb]) = view_q3 (q3_merge ps)"
  proof
    assume "mset ps = mset ga + mset gb"
    then have "mset ps = mset (ga @ gb)" by simp
    then have "spec_merge_q3 ps = spec_merge_q3 (ga @ gb)" by (rule spec_merge_q3_perm)
    then show "view_q3 (q3_merge [q3_merge ga, q3_merge gb]) = view_q3 (q3_merge ps)"
      by (simp only: view_q3_merge spec_merge_q3_regroup)
  qed
  have b1: "view_q4 (q4_merge bs) = spec_merge_q4 bs" by (rule view_q4_merge)
  have b2: "view_q4 (q4_merge [q4_merge ha, q4_merge hb]) = view_q4 (q4_merge (ha @ hb))"
    by (simp only: view_q4_merge spec_merge_q4_regroup)
  have b3: "mset bs = mset cs
        \<longrightarrow> map_option unpriced (view_q4 (q4_merge bs) k)
            = map_option unpriced (view_q4 (q4_merge cs) k)"
  proof
    assume "mset bs = mset cs"
    from spec_merge_q4_perm(1) [OF this, of k]
    show "map_option unpriced (view_q4 (q4_merge bs) k)
            = map_option unpriced (view_q4 (q4_merge cs) k)"
      by (simp add: view_q4_merge unpriced_def [abs_def])
  qed
  have perm4: "spec_merge_q4 xs = spec_merge_q4 ys"
    if "mset xs = mset ys" "consistent_prices b_price xs" for xs ys
  proof
    fix j
    from that(2) have "\<forall>p \<in> prices_of b_price xs j. \<forall>q \<in> prices_of b_price xs j. p = q"
      by (simp add: consistent_prices_def)
    with that(1) show "spec_merge_q4 xs j = spec_merge_q4 ys j"
      by (rule spec_merge_q4_perm(2))
  qed
  have b4: "mset bs = mset cs \<and> consistent_prices b_price bs
        \<longrightarrow> view_q4 (q4_merge bs) = view_q4 (q4_merge cs)"
  proof
    assume "mset bs = mset cs \<and> consistent_prices b_price bs"
    then have "spec_merge_q4 bs = spec_merge_q4 cs" by (intro perm4) simp_all
    then show "view_q4 (q4_merge bs) = view_q4 (q4_merge cs)"
      by (simp only: view_q4_merge)
  qed
  have b5: "mset bs = mset ha + mset hb \<and> consistent_prices b_price bs
        \<longrightarrow> view_q4 (q4_merge [q4_merge ha, q4_merge hb]) = view_q4 (q4_merge bs)"
  proof
    assume h: "mset bs = mset ha + mset hb \<and> consistent_prices b_price bs"
    then have "mset bs = mset (ha @ hb)" by simp
    with h have "spec_merge_q4 bs = spec_merge_q4 (ha @ hb)" by (intro perm4) simp_all
    then show "view_q4 (q4_merge [q4_merge ha, q4_merge hb]) = view_q4 (q4_merge bs)"
      by (simp only: view_q4_merge spec_merge_q4_regroup)
  qed
  have c1: "map_of (q2_merge ops ms) k =
        (let es = entries_of k (concat ms)
         in if es = [] then None
            else Some (fold (\<lambda>e acc. fadd ops acc (fst e)) es (Some (Fin 0)),
                       sum_list (map (\<lambda>e. fst (snd e)) es),
                       first_writer (\<lambda>e. snd (snd e)) ms k))"
    by (rule q2_merge_components)
  have c2: "mset ms = mset ns
        \<longrightarrow> map_option (\<lambda>e. fst (snd e)) (map_of (q2_merge ops ms) k)
            = map_option (\<lambda>e. fst (snd e)) (map_of (q2_merge ops ns) k)"
  proof
    assume "mset ms = mset ns"
    then have m: "mset (entries_of k (concat ms)) = mset (entries_of k (concat ns))"
      by (rule mset_entries_perm)
    then have "entries_of k (concat ms) = [] \<longleftrightarrow> entries_of k (concat ns) = []"
      by (metis mset_zero_iff)
    with sum_list_mset_cong [OF m, of "\<lambda>e. fst (snd e)"]
    show "map_option (\<lambda>e. fst (snd e)) (map_of (q2_merge ops ms) k)
            = map_option (\<lambda>e. fst (snd e)) (map_of (q2_merge ops ns) k)"
      by (simp add: q2_merge_components Let_def)
  qed
  show ?thesis
    by (intro conjI) (fact a1, fact a2, fact a3, fact b1, fact b2, fact b3, fact b4, fact b5,
      fact c1, fact c2)
qed

theorem merge_order_amended_witness:
  "mset [users_a, users_b, users_c] = mset [users_c, users_b, users_a]
   \<and> mset [users_a, users_b, users_c] = mset [users_a, users_c] + mset [users_b]
   \<and> view_q3 (q3_merge [users_a, users_b, users_c]) = view_q3 (q3_merge [users_c, users_b, users_a])
   \<and> view_q3 (q3_merge [q3_merge [users_a, users_c], q3_merge [users_b]])
       = view_q3 (q3_merge [users_a, users_b, users_c])
   \<and> map_of (q3_merge [users_a, users_b, users_c]) ''U1''
       = Some \<lparr>u_sum = 12, u_cnt = 3, u_books = {''b1'', ''b2''},
               u_name_counts = [(''Ann'', 2), (''Anne'', 1)]\<rparr>
   \<and> mset [part_a, part_c] = mset [part_c, part_a]
   \<and> mset [part_a, part_c] = mset [part_c] + mset [part_a]
   \<and> consistent_prices b_price [part_a, part_c]
   \<and> view_q4 (q4_merge [part_a, part_c]) = view_q4 (q4_merge [part_c, part_a])
   \<and> view_q4 (q4_merge [q4_merge [part_c], q4_merge [part_a]]) = view_q4 (q4_merge [part_a, part_c])
   \<and> map_of (q4_merge [part_c, part_a]) ''B1''
       = Some \<lparr>b_sum = 7, b_cnt = 2, b_price = Some (Fin 10), b_title_counts = [(''T'', 2)]\<rparr>
   \<and> mset [q2_part_a, q2_part_b] = mset [q2_part_b, q2_part_a]
   \<and> (\<forall>ops. map_option (\<lambda>e. fst (snd e)) (map_of (q2_merge ops [q2_part_a, q2_part_b]) ''B1'')
         = map_option (\<lambda>e. fst (snd e)) (map_of (q2_merge ops [q2_part_b, q2_part_a]) ''B1''))"
proof -
  have h1: "mset [users_a, users_b, users_c] = mset [users_c, users_b, users_a]"
    and h2: "mset [users_a, users_b, users_c] = mset [users_a, users_c] + mset [users_b]"
    and h3: "mset [part_a, part_c] = mset [part_c, part_a]"
    and h4: "mset [part_a, part_c] = mset [part_c] + mset [part_a]"
    and h5: "mset [q2_part_a, q2_part_b] = mset [q2_part_b, q2_part_a]"
    by simp_all
  have h6: "consistent_prices b_price [part_a, part_c]"
    by (auto simp: consistent_prices_def prices_of_def entries_of_def part_a_def part_c_def
        split: if_splits)
  note q3 = merge_order_amended [where ps = "[users_a, users_b, users_c]"
      and ga = "[users_a, users_c]" and gb = "[users_b]"]
  from q3 [where qs = "[users_c, users_b, users_a]"] h1
  have c1: "view_q3 (q3_merge [users_a, users_b, users_c]) = view_q3 (q3_merge [users_c, users_b, users_a])"
    by blast
  from q3 h2
  have c2: "view_q3 (q3_merge [q3_merge [users_a, users_c], q3_merge [users_b]])
       = view_q3 (q3_merge [users_a, users_b, users_c])"
    by blast
  note q4 = merge_order_amended [where bs = "[part_a, part_c]" and cs = "[part_c, part_a]"
      and ha = "[part_c]" and hb = "[part_a]"]
  from q4 h3 h6
  have c3: "view_q4 (q4_merge [part_a, part_c]) = view_q4 (q4_merge [part_c, part_a])"
    by blast
  from q4 h4 h6
  have c4: "view_q4 (q4_merge [q4_merge [part_c], q4_merge [part_a]]) = view_q4 (q4_merge [part_a, part_c])"
    by blast
  have c5: "map_option (\<lambda>e. fst (snd e)) (map_of (q2_merge ops [q2_part_a, q2_part_b]) ''B1'')
         = map_option (\<lambda>e. fst (snd e)) (map_of (q2_merge ops [q2_part_b, q2_part_a]) ''B1'')" for ops
    using merge_order_amended [where ms = "[q2_part_a, q2_part_b]" and ns = "[q2_part_b, q2_part_a]"
        and ops = ops and k = "''B1''"] h5
    by blast
  have v1: "map_of (q3_merge [users_a, users_b, users_c]) ''U1''
       = Some \<lparr>u_sum = 12, u_cnt = 3, u_books = {''b1'', ''b2''},
               u_name_counts = [(''Ann'', 2), (''Anne'', 1)]\<rparr>"
    by (simp add: q3_merge_def q3_merge_item_def q3_combine_def users_a_def users_b_def
        users_c_def dict_get_def counter_update_def counter_add_def user_default_def insert_commute)
  have v2: "map_of (q4_merge [part_c, part_a]) ''B1''
       = Some \<lparr>b_sum = 7, b_cnt = 2, b_price = Some (Fin 10), b_title_counts = [(''T'', 2)]\<rparr>"
    by (simp add: q4_merge_def q4_merge_item_def q4_combine_def part_a_def part_c_def
        dict_get_def counter_update_def counter_add_def book_default_def)
  from h1 h2 c1 c2 v1 h3 h4 h6 c3 c4 v2 h5 c5 show ?thesis by blast
qed

text \<open>
  The claim's invariance under every reordering fails for the price: two partial maps
  that carry the prices 10 and 20 for the book \<^verbatim>\<open>B1\<close> merge to the price 10 in one order
  and to 20 in the other, in the merge of Q4 and in the merge of Q2.
\<close>

theorem merge_reorder_counterexample:
  "mset [part_a, part_b] = mset [part_b, part_a]
   \<and> map_of (q4_merge [part_a, part_b]) ''B1''
       = Some \<lparr>b_sum = 5, b_cnt = 2, b_price = Some (Fin 10), b_title_counts = [(''T'', 2)]\<rparr>
   \<and> map_of (q4_merge [part_b, part_a]) ''B1''
       = Some \<lparr>b_sum = 5, b_cnt = 2, b_price = Some (Fin 20), b_title_counts = [(''T'', 2)]\<rparr>
   \<and> mset [q2_part_a, q2_part_b] = mset [q2_part_b, q2_part_a]
   \<and> (\<forall>ops. snd (snd (dict_get (q2_merge ops [q2_part_a, q2_part_b]) ''B1'' (Some (Fin 0), 0, None)))
         = Some (Fin 10))
   \<and> (\<forall>ops. snd (snd (dict_get (q2_merge ops [q2_part_b, q2_part_a]) ''B1'' (Some (Fin 0), 0, None)))
         = Some (Fin 20))"
  by (simp add: q4_merge_def q4_merge_item_def q4_combine_def part_a_def part_b_def
      dict_get_def counter_update_def counter_add_def book_default_def
      q2_merge_def q2_merge_item_def q2_combine_def q2_part_a_def q2_part_b_def)

end
